theory Spec2Isabelle
  imports Complex_Main "HOL-Library.Multiset"
begin

section \<open>Score combination (combo/models/score\_comb.py)\<close>

text \<open>
  The module reduces a score matrix (one row per sample, one column per estimator) to one
  value per sample. Scores are numpy floats in the source; here they are real numbers, so
  every statement below is about exact arithmetic and says nothing about rounding.
  A matrix is the list of its rows.
\<close>

subsection \<open>Arrays and errors\<close>

type_synonym matrix = "real list list"

text \<open>
  The exceptions the module can raise, one constructor per raise site or per library
  failure that the module can run into:
  \<^item> \<open>NotImplementedError v\<close>: \<^verbatim>\<open>NotImplementedError('{v} is not implemented')\<close>, for an
    unknown mode or method \<open>v\<close>;
  \<^item> \<open>InvalidInput\<close>: the \<^verbatim>\<open>ValueError\<close> of sklearn's \<^verbatim>\<open>check_array\<close>;
  \<^item> \<open>ParameterRange\<close>: the \<^verbatim>\<open>ValueError\<close> of pyod's \<^verbatim>\<open>check_parameter\<close>;
  \<^item> \<open>UnevenBucket\<close>: \<^verbatim>\<open>ValueError('n_estimators / n_buckets has a remainder. Not allowed
    in static mode.')\<close>;
  \<^item> \<open>BadWeightShape n s\<close>: \<^verbatim>\<open>ValueError('Bad input shape of estimator_weight: (1, {n}),and {s}
    received')\<close>;
  \<^item> \<open>UnknownLabelType\<close>: the \<^verbatim>\<open>ValueError\<close> of sklearn's \<^verbatim>\<open>check_classification_targets\<close>;
  \<^item> \<open>AssertionError\<close>: numpy's \<^verbatim>\<open>assert_equal\<close>;
  \<^item> \<open>IndexError\<close>: an index outside an array or a shape tuple;
  \<^item> \<open>EmptyReduction\<close>: numpy's \<^verbatim>\<open>ValueError\<close> for the maximum of a zero-size array;
  \<^item> \<open>EmptyRange\<close>: numpy's \<^verbatim>\<open>ValueError('low >= high')\<close> of \<^verbatim>\<open>randint\<close>;
  \<^item> \<open>SampleTooLarge\<close>: sklearn's \<^verbatim>\<open>ValueError\<close> of \<^verbatim>\<open>sample_without_replacement\<close> when more
    samples than the population are asked for (or a negative number of them);
  \<^item> \<open>ZeroStep\<close>: Python's \<^verbatim>\<open>ValueError\<close> for \<^verbatim>\<open>range\<close> with step 0;
  \<^item> \<open>BroadcastError\<close>: numpy's \<^verbatim>\<open>ValueError\<close> when shapes cannot be broadcast;
  \<^item> \<open>SeedError\<close>: whatever numpy raises when it cannot seed a generator from the value given;
  \<^item> \<open>NotANumber\<close>: not an exception. numpy divides by zero without raising and returns
    \<^verbatim>\<open>nan\<close> or \<^verbatim>\<open>inf\<close> entries; no real number stands for them, so the model reports this
    outcome apart from every real-valued result.
\<close>

datatype error =
    NotImplementedError string
  | InvalidInput
  | ParameterRange
  | UnevenBucket
  | BadWeightShape nat "nat list"
  | UnknownLabelType
  | AssertionError
  | IndexError
  | EmptyReduction
  | EmptyRange
  | SampleTooLarge
  | ZeroStep
  | BroadcastError
  | SeedError
  | NotANumber

text \<open>
  A weight argument is a numpy array of rank 1 or 2; the source reads its \<^verbatim>\<open>shape\<close>.
\<close>

datatype ndarray = Array1 "real list" | Array2 "real list list"

definition n_cols :: "'a list list \<Rightarrow> nat" where
  "n_cols m = (case m of [] \<Rightarrow> 0 | r # _ \<Rightarrow> length r)"

fun shape :: "ndarray \<Rightarrow> nat list" where
  "shape (Array1 xs) = [length xs]"
| "shape (Array2 rows) = [length rows, n_cols rows]"

fun ravel :: "ndarray \<Rightarrow> real list" where
  "ravel (Array1 xs) = xs"
| "ravel (Array2 rows) = concat rows"

text \<open>
  sklearn's \<^verbatim>\<open>check_array\<close> with its defaults: the input must be a rectangular 2-D array with
  at least one sample and at least one feature (finiteness always holds for reals).
\<close>

definition check_array :: "matrix \<Rightarrow> error + matrix" where
  "check_array scores =
     (if scores = [] \<or> hd scores = [] \<or> list_ex (\<lambda>r. length r \<noteq> length (hd scores)) scores
      then Inl InvalidInput else Inr scores)"

text \<open>\<^verbatim>\<open>np.mean\<close> and \<^verbatim>\<open>np.max\<close> of a non-empty vector.\<close>

definition mean :: "real list \<Rightarrow> real" where
  "mean xs = sum_list xs / real (length xs)"

definition amax :: "real list \<Rightarrow> real" where
  "amax xs = Max (set xs)"

subsection \<open>average\<close>

text \<open>
  \<^verbatim>\<open>average(scores, estimator_weights=None)\<close>. With weights, the shape must be
  \<^verbatim>\<open>(1, scores.shape[1])\<close>; \<^verbatim>\<open>np.multiply\<close> then broadcasts the single weight row over the
  rows of the scores, and the row sums are divided by \<^verbatim>\<open>np.sum(estimator_weights)\<close>.
\<close>

definition average :: "matrix \<Rightarrow> ndarray option \<Rightarrow> error + real list" where
  "average scores0 estimator_weights =
     (case check_array scores0 of
        Inl e \<Rightarrow> Inl e
      | Inr scores \<Rightarrow>
          (case estimator_weights of
             None \<Rightarrow> Inr (map mean scores)
           | Some w \<Rightarrow>
               if shape w \<noteq> [1, n_cols scores]
               then Inl (BadWeightShape (n_cols scores) (shape w))
               else if sum_list (ravel w) = 0 then Inl NotANumber
               else Inr (map (\<lambda>row. sum_list (map2 (*) row (ravel w)) / sum_list (ravel w))
                           scores)))"

subsection \<open>Random sources\<close>

text \<open>
  The \<^verbatim>\<open>random_state\<close> argument is an integer seed, a generator instance, or \<^verbatim>\<open>None\<close>, which
  stands for numpy's process-wide generator. A generator is mutable: drawing from it changes
  its state. \<open>'g\<close> is the type of generator states; \<open>RS_instance g\<close> and \<open>RS_none g\<close> carry
  the current state of the instance and of the process-wide generator.
\<close>

datatype 'g random_state = RS_int int | RS_instance 'g | RS_none 'g

text \<open>
  What numpy and sklearn compute is not part of the module; it is a parameter of the model:
  \<^item> \<open>seeded s\<close>: the state of \<^verbatim>\<open>RandomState(s)\<close> for an integer \<open>s\<close>;
  \<^item> \<open>fresh i\<close>: the state of the \<open>i\<close>-th \<^verbatim>\<open>RandomState(seed=None)\<close> built during a call, which
    numpy seeds from the operating system;
  \<^item> \<open>reseed g\<close>: what \<^verbatim>\<open>RandomState(seed=r)\<close> does for a generator instance \<open>r\<close> in state \<open>g\<close>;
  \<^item> \<open>permute g xs\<close>: the list \<^verbatim>\<open>shuffle\<close> returns for \<open>xs\<close> and the state it leaves;
  \<^item> \<open>pick g n k\<close>: the indices \<^verbatim>\<open>sample_without_replacement(n, k)\<close> returns, for
    \<open>k \<le> n\<close>, and the state it leaves;
  \<^item> \<open>draw g lo hi\<close>: the integer \<^verbatim>\<open>randint(lo, hi)\<close> returns, for \<open>lo < hi\<close>, and the state it
    leaves.
\<close>

record 'g library =
  seeded :: "int \<Rightarrow> 'g"
  fresh :: "nat \<Rightarrow> 'g"
  reseed :: "'g \<Rightarrow> error + 'g"
  permute :: "'g \<Rightarrow> nat list \<Rightarrow> nat list \<times> 'g"
  pick :: "'g \<Rightarrow> nat \<Rightarrow> nat \<Rightarrow> nat list \<times> 'g"
  draw :: "'g \<Rightarrow> int \<Rightarrow> int \<Rightarrow> int \<times> 'g"

text \<open>
  sklearn's \<^verbatim>\<open>check_random_state\<close>: an integer seeds a new generator on every call, an
  instance is used as it is, \<^verbatim>\<open>None\<close> is the process-wide generator. \<open>after_draw\<close> is the
  random source as the caller sees it after the generator was left in state \<open>g'\<close>: a generator
  built from an integer seed is dropped.
\<close>

fun check_random_state :: "'g library \<Rightarrow> 'g random_state \<Rightarrow> 'g" where
  "check_random_state L (RS_int s) = seeded L s"
| "check_random_state L (RS_instance g) = g"
| "check_random_state L (RS_none g) = g"

fun after_draw :: "'g random_state \<Rightarrow> 'g \<Rightarrow> 'g random_state" where
  "after_draw (RS_int s) g' = RS_int s"
| "after_draw (RS_instance g) g' = RS_instance g'"
| "after_draw (RS_none g) g' = RS_none g'"

definition shuffle :: "'g library \<Rightarrow> nat list \<Rightarrow> 'g random_state \<Rightarrow> nat list \<times> 'g random_state" where
  "shuffle L xs random_state =
     (let (ys, g') = permute L (check_random_state L random_state) xs
      in (ys, after_draw random_state g'))"

definition sample_without_replacement ::
  "'g library \<Rightarrow> nat \<Rightarrow> int \<Rightarrow> 'g random_state \<Rightarrow> error + (nat list \<times> 'g random_state)" where
  "sample_without_replacement L n_population n_samples random_state =
     (if n_samples < 0 \<or> int n_population < n_samples then Inl SampleTooLarge
      else let (ind, g') = pick L (check_random_state L random_state) n_population (nat n_samples)
           in Inr (ind, after_draw random_state g'))"

text \<open>
  \<^verbatim>\<open>RandomState(seed=random_state)\<close>, built for the \<open>i\<close>-th bucket, and \<^verbatim>\<open>randint\<close> on it. The new
  generator is dropped after the draw.
\<close>

fun RandomState :: "'g library \<Rightarrow> 'g random_state \<Rightarrow> nat \<Rightarrow> error + 'g" where
  "RandomState L (RS_int s) i = Inr (seeded L s)"
| "RandomState L (RS_instance g) i = reseed L g"
| "RandomState L (RS_none g) i = Inr (fresh L i)"

definition randint :: "'g library \<Rightarrow> 'g \<Rightarrow> int \<Rightarrow> int \<Rightarrow> error + int" where
  "randint L g low high = (if high \<le> low then Inl EmptyRange else Inr (fst (draw L g low high)))"

subsection \<open>Average of Maximum, Maximum of Average\<close>

text \<open>
  Modelled from the spec: \<^verbatim>\<open>check_parameter\<close> is imported from pyod and is not in the
  repository; the call asks for \<open>low \<le> param \<le> high\<close> (both bounds included), which the spec
  states as \<open>2 \<le> n_buckets \<le> n_estimators\<close>.
\<close>

definition check_parameter :: "nat \<Rightarrow> nat \<Rightarrow> nat \<Rightarrow> error + bool" where
  "check_parameter param low high =
     (if low \<le> param \<and> param \<le> high then Inr True else Inl ParameterRange)"

text \<open>\<^verbatim>\<open>np.zeros([n, m])\<close>, \<^verbatim>\<open>scores[:, ind]\<close>, the reductions along axis 1, and
  \<^verbatim>\<open>scores_buckets[:, j] = col\<close>.\<close>

definition zeros :: "nat \<Rightarrow> nat \<Rightarrow> matrix" where
  "zeros n m = replicate n (replicate m 0)"

definition select_columns :: "matrix \<Rightarrow> nat list \<Rightarrow> error + matrix" where
  "select_columns scores ind =
     (if list_ex (\<lambda>j. n_cols scores \<le> j) ind then Inl IndexError
      else Inr (map (\<lambda>row. map (\<lambda>j. row ! j) ind) scores))"

definition np_max_axis1 :: "matrix \<Rightarrow> error + real list" where
  "np_max_axis1 m = (if n_cols m = 0 then Inl EmptyReduction else Inr (map amax m))"

definition np_mean_axis1 :: "matrix \<Rightarrow> error + real list" where
  "np_mean_axis1 m = (if n_cols m = 0 then Inl NotANumber else Inr (map mean m))"

definition set_column :: "matrix \<Rightarrow> nat \<Rightarrow> real list \<Rightarrow> error + matrix" where
  "set_column scores_buckets j col =
     (if n_cols scores_buckets \<le> j then Inl IndexError
      else Inr (map2 (\<lambda>row x. row[j := x]) scores_buckets col))"

text \<open>
  The body shared by the three loops: reduce the columns \<open>ind\<close> of the scores (maximum for
  AOM, mean for MOA) and store the result as column \<open>j\<close> of \<open>scores_buckets\<close>. The loop state
  is \<open>scores_buckets\<close> together with the list of the index lists used so far, one per bucket
  (the spec's BucketAssignment); the source holds each of them in \<open>ind\<close>, or in the slice
  \<^verbatim>\<open>shuffled_list[head:tail]\<close>, for one iteration only.
\<close>

definition fill_bucket ::
  "string \<Rightarrow> matrix \<Rightarrow> nat list \<Rightarrow> nat \<Rightarrow> matrix \<times> nat list list
     \<Rightarrow> error + (matrix \<times> nat list list)" where
  "fill_bucket mode scores ind j st =
     (case select_columns scores ind of
        Inl e \<Rightarrow> Inl e
      | Inr sub \<Rightarrow>
          (case (if mode = ''AOM'' then np_max_axis1 sub else np_mean_axis1 sub) of
             Inl e \<Rightarrow> Inl e
           | Inr col \<Rightarrow>
               (case set_column (fst st) j col of
                  Inl e \<Rightarrow> Inl e
                | Inr sb \<Rightarrow> Inr (sb, snd st @ [ind]))))"

text \<open>\<^verbatim>\<open>range(0, stop, step)\<close> for a positive step, and the slice \<^verbatim>\<open>xs[head:tail]\<close>.\<close>

definition py_range :: "nat \<Rightarrow> nat \<Rightarrow> nat list" where
  "py_range stop step = map (\<lambda>k. k * step) [0..<(stop + step - 1) div step]"

definition slice :: "'a list \<Rightarrow> nat \<Rightarrow> nat \<Rightarrow> 'a list" where
  "slice xs head tail = drop head (take tail xs)"

text \<open>The loop of the static method without bootstrap, over \<open>i\<close> in
  \<^verbatim>\<open>range(0, n_estimators, n_estimators_per_bucket)\<close>.\<close>

fun static_loop ::
  "string \<Rightarrow> matrix \<Rightarrow> nat list \<Rightarrow> nat \<Rightarrow> nat list \<Rightarrow> nat \<Rightarrow> matrix \<times> nat list list
     \<Rightarrow> error + (matrix \<times> nat list list)" where
  "static_loop mode scores shuffled_list per_bucket [] head st = Inr st"
| "static_loop mode scores shuffled_list per_bucket (i # rest) head st =
     (let tail = i + per_bucket;
          batch_ind = i div per_bucket
      in case fill_bucket mode scores (slice shuffled_list head tail) batch_ind st of
           Inl e \<Rightarrow> Inl e
         | Inr st' \<Rightarrow>
             static_loop mode scores shuffled_list per_bucket rest (head + per_bucket) st')"

text \<open>The loop of the static method with bootstrap, over \<open>i\<close> in \<^verbatim>\<open>range(n_buckets)\<close>.\<close>

fun bootstrap_loop ::
  "'g library \<Rightarrow> string \<Rightarrow> matrix \<Rightarrow> nat \<Rightarrow> nat \<Rightarrow> nat list \<Rightarrow> 'g random_state
     \<Rightarrow> matrix \<times> nat list list \<Rightarrow> error + (matrix \<times> nat list list)" where
  "bootstrap_loop L mode scores n_estimators per_bucket [] random_state st = Inr st"
| "bootstrap_loop L mode scores n_estimators per_bucket (i # rest) random_state st =
     (case sample_without_replacement L n_estimators (int per_bucket) random_state of
        Inl e \<Rightarrow> Inl e
      | Inr (ind, random_state') \<Rightarrow>
          (case fill_bucket mode scores ind i st of
             Inl e \<Rightarrow> Inl e
           | Inr st' \<Rightarrow>
               bootstrap_loop L mode scores n_estimators per_bucket rest random_state' st'))"

text \<open>The loop of the dynamic method, over \<open>i\<close> in \<^verbatim>\<open>range(n_buckets)\<close>:
  the bucket size comes from \<^verbatim>\<open>RandomState(seed=random_state).randint(2, int(n_estimators / 2))\<close>.\<close>

fun dynamic_loop ::
  "'g library \<Rightarrow> string \<Rightarrow> matrix \<Rightarrow> nat \<Rightarrow> nat list \<Rightarrow> 'g random_state
     \<Rightarrow> matrix \<times> nat list list \<Rightarrow> error + (matrix \<times> nat list list)" where
  "dynamic_loop L mode scores n_estimators [] random_state st = Inr st"
| "dynamic_loop L mode scores n_estimators (i # rest) random_state st =
     (case RandomState L random_state i of
        Inl e \<Rightarrow> Inl e
      | Inr g \<Rightarrow>
          (case randint L g 2 (int (n_estimators div 2)) of
             Inl e \<Rightarrow> Inl e
           | Inr max_estimator_per_bucket \<Rightarrow>
               (case sample_without_replacement L n_estimators max_estimator_per_bucket
                       random_state of
                  Inl e \<Rightarrow> Inl e
                | Inr (ind, random_state') \<Rightarrow>
                    (case fill_bucket mode scores ind i st of
                       Inl e \<Rightarrow> Inl e
                     | Inr st' \<Rightarrow>
                         dynamic_loop L mode scores n_estimators rest random_state' st'))))"

text \<open>
  \<^verbatim>\<open>_aom_moa_helper\<close>. \<open>aom_moa_buckets\<close> runs the function up to the end of the loops and
  returns \<open>scores_buckets\<close> with the bucket list; \<open>aom_moa_helper\<close> adds the final reduction
  across buckets and returns what the source returns.
\<close>

definition aom_moa_buckets ::
  "'g library \<Rightarrow> string \<Rightarrow> matrix \<Rightarrow> nat \<Rightarrow> string \<Rightarrow> bool \<Rightarrow> 'g random_state
     \<Rightarrow> error + (matrix \<times> nat list list)" where
  "aom_moa_buckets L mode scores0 n_buckets method bootstrap_estimators random_state =
     (if mode \<noteq> ''AOM'' \<and> mode \<noteq> ''MOA'' then Inl (NotImplementedError mode)
      else case check_array scores0 of
        Inl e \<Rightarrow> Inl e
      | Inr scores \<Rightarrow>
          (let n_estimators = n_cols scores
           in case check_parameter n_buckets 2 n_estimators of
                Inl e \<Rightarrow> Inl e
              | Inr _ \<Rightarrow>
                  (let scores_buckets = zeros (length scores) n_buckets
                   in if method = ''static'' then
                        (let n_estimators_per_bucket = n_estimators div n_buckets
                         in if n_estimators mod n_buckets \<noteq> 0 then Inl UnevenBucket
                            else if \<not> bootstrap_estimators then
                              (let (shuffled_list, random_state') =
                                     shuffle L [0..<n_estimators] random_state
                               in if n_estimators_per_bucket = 0 then Inl ZeroStep
                                  else static_loop mode scores shuffled_list
                                         n_estimators_per_bucket
                                         (py_range n_estimators n_estimators_per_bucket) 0
                                         (scores_buckets, []))
                            else bootstrap_loop L mode scores n_estimators
                                   n_estimators_per_bucket [0..<n_buckets] random_state
                                   (scores_buckets, []))
                      else if method = ''dynamic'' then
                        dynamic_loop L mode scores n_estimators [0..<n_buckets] random_state
                          (scores_buckets, [])
                      else Inl (NotImplementedError method))))"

definition aom_moa_helper ::
  "'g library \<Rightarrow> string \<Rightarrow> matrix \<Rightarrow> nat \<Rightarrow> string \<Rightarrow> bool \<Rightarrow> 'g random_state
     \<Rightarrow> error + real list" where
  "aom_moa_helper L mode scores n_buckets method bootstrap_estimators random_state =
     (case aom_moa_buckets L mode scores n_buckets method bootstrap_estimators random_state of
        Inl e \<Rightarrow> Inl e
      | Inr (scores_buckets, buckets) \<Rightarrow>
          if mode = ''AOM'' then np_mean_axis1 scores_buckets
          else np_max_axis1 scores_buckets)"

definition aom :: "'g library \<Rightarrow> matrix \<Rightarrow> nat \<Rightarrow> string \<Rightarrow> bool \<Rightarrow> 'g random_state
     \<Rightarrow> error + real list" where
  "aom L scores n_buckets method bootstrap_estimators random_state =
     aom_moa_helper L ''AOM'' scores n_buckets method bootstrap_estimators random_state"

definition moa :: "'g library \<Rightarrow> matrix \<Rightarrow> nat \<Rightarrow> string \<Rightarrow> bool \<Rightarrow> 'g random_state
     \<Rightarrow> error + real list" where
  "moa L scores n_buckets method bootstrap_estimators random_state =
     aom_moa_helper L ''MOA'' scores n_buckets method bootstrap_estimators random_state"

text \<open>
  The bucket assignment of a call: the index lists of its buckets, in the order in which the
  loops build them.
\<close>

definition bucket_assignment ::
  "'g library \<Rightarrow> string \<Rightarrow> matrix \<Rightarrow> nat \<Rightarrow> string \<Rightarrow> bool \<Rightarrow> 'g random_state
     \<Rightarrow> error + nat list list" where
  "bucket_assignment L mode scores n_buckets method bootstrap_estimators random_state =
     (case aom_moa_buckets L mode scores n_buckets method bootstrap_estimators random_state of
        Inl e \<Rightarrow> Inl e
      | Inr (scores_buckets, buckets) \<Rightarrow> Inr buckets)"

text \<open>
  A small deterministic library, to run the model on concrete inputs: a generator state is
  a number, shuffling rotates the list by it, sampling takes a prefix of the rotated index
  range, and every call adds one to the state.
\<close>

definition rotating :: "nat library" where
  "rotating =
     \<lparr> seeded = (\<lambda>s. nat \<bar>s\<bar>),
       fresh = (\<lambda>i. i),
       reseed = (\<lambda>g. Inl SeedError),
       permute = (\<lambda>g xs. (rotate g xs, Suc g)),
       pick = (\<lambda>g n k. (take k (rotate g [0..<n]), Suc g)),
       draw = (\<lambda>g lo hi. (lo + int g mod (hi - lo), Suc g)) \<rparr>"

subsection \<open>What a bucket contributes\<close>

text \<open>
  The value of one bucket for one sample: the maximum (AOM) or the mean (MOA) of the sample's
  scores in the bucket's columns. \<open>filled mode scores nb k st\<close> is the invariant of the three
  loops after \<open>k\<close> buckets: \<open>scores_buckets\<close> has a row of \<open>nb\<close> entries per sample, \<open>k\<close> buckets
  were built, each of them non-empty and within the estimator columns, and column \<open>j < k\<close>
  holds the value of bucket \<open>j\<close>.
\<close>

definition bucket_value :: "string \<Rightarrow> real list \<Rightarrow> real" where
  "bucket_value mode xs = (if mode = ''AOM'' then amax xs else mean xs)"

definition columns_of :: "real list \<Rightarrow> nat list \<Rightarrow> real list" where
  "columns_of row ind = map (\<lambda>j. row ! j) ind"

definition filled :: "string \<Rightarrow> matrix \<Rightarrow> nat \<Rightarrow> nat \<Rightarrow> matrix \<times> nat list list \<Rightarrow> bool" where
  "filled mode scores nb k st \<longleftrightarrow>
     length (fst st) = length scores \<and> (\<forall>r \<in> set (fst st). length r = nb) \<and>
     length (snd st) = k \<and> k \<le> nb \<and>
     (\<forall>b \<in> set (snd st). b \<noteq> [] \<and> set b \<subseteq> {..<n_cols scores}) \<and>
     (\<forall>i<length scores. \<forall>j<k. fst st ! i ! j = bucket_value mode (columns_of (scores ! i) (snd st ! j)))"

text \<open>A score matrix of two samples and four estimators, for running the model.\<close>

definition two_samples :: matrix where
  "two_samples = [[1, 2, 3, 4], [4, 3, 2, 1]]"

subsection \<open>What the library promises\<close>

text \<open>
  The contracts of the three library calls, as far as the properties below need them:
  \<^verbatim>\<open>shuffle\<close> returns a permutation of its input; \<^verbatim>\<open>sample_without_replacement(n, k)\<close> returns
  \<open>k\<close> distinct indices below \<open>n\<close>; \<^verbatim>\<open>randint(lo, hi)\<close> returns an integer in \<open>[lo, hi)\<close>.
\<close>

definition shuffle_permutes :: "'g library \<Rightarrow> bool" where
  "shuffle_permutes L \<longleftrightarrow> (\<forall>g xs. mset (fst (permute L g xs)) = mset xs)"

definition sample_distinct :: "'g library \<Rightarrow> bool" where
  "sample_distinct L \<longleftrightarrow>
     (\<forall>g n k. k \<le> n \<longrightarrow>
        length (fst (pick L g n k)) = k \<and> distinct (fst (pick L g n k))
        \<and> set (fst (pick L g n k)) \<subseteq> {..<n})"

definition draw_in_range :: "'g library \<Rightarrow> bool" where
  "draw_in_range L \<longleftrightarrow>
     (\<forall>g lo hi. lo < hi \<longrightarrow> lo \<le> fst (draw L g lo hi) \<and> fst (draw L g lo hi) < hi)"

subsection \<open>How a sampled bucket comes about\<close>

text \<open>
  \<open>same_source r r'\<close>: \<open>r'\<close> is the random source \<open>r\<close> at a later moment of the same call (the
  same integer seed, or the same generator in another state).
  \<open>sampled_bucket L n size r b\<close>: \<open>b\<close> is what \<^verbatim>\<open>sample_without_replacement(n, size)\<close> returns on
  the source \<open>r\<close>. \<open>dynamic_bucket L n r i b\<close>: \<open>b\<close> is the \<open>i\<close>-th bucket of the dynamic method
  on the source \<open>r\<close>: its size is drawn from \<open>[2, n div 2)\<close> with the generator that
  \<^verbatim>\<open>RandomState(seed=random_state)\<close> builds for this bucket.
  \<open>seeded_sample L s n k\<close>: the indices \<^verbatim>\<open>sample_without_replacement(n, k, random_state=s)\<close>
  returns for an integer seed \<open>s\<close>.
\<close>

fun same_source :: "'g random_state \<Rightarrow> 'g random_state \<Rightarrow> bool" where
  "same_source (RS_int s) r = (case r of RS_int s' \<Rightarrow> s' = s | _ \<Rightarrow> False)"
| "same_source (RS_instance g) r = (case r of RS_instance g' \<Rightarrow> True | _ \<Rightarrow> False)"
| "same_source (RS_none g) r = (case r of RS_none g' \<Rightarrow> True | _ \<Rightarrow> False)"

definition sampled_bucket :: "'g library \<Rightarrow> nat \<Rightarrow> int \<Rightarrow> 'g random_state \<Rightarrow> nat list \<Rightarrow> bool" where
  "sampled_bucket L n sz r b \<longleftrightarrow>
     0 \<le> sz \<and> sz \<le> int n \<and> b = fst (pick L (check_random_state L r) n (nat sz))"

definition dynamic_bucket :: "'g library \<Rightarrow> nat \<Rightarrow> 'g random_state \<Rightarrow> nat \<Rightarrow> nat list \<Rightarrow> bool" where
  "dynamic_bucket L n r i b \<longleftrightarrow>
     (case RandomState L r i of
        Inl e \<Rightarrow> False
      | Inr g \<Rightarrow> 2 < int (n div 2)
                \<and> sampled_bucket L n (fst (draw L g 2 (int (n div 2)))) r b)"

definition seeded_sample :: "'g library \<Rightarrow> int \<Rightarrow> nat \<Rightarrow> nat \<Rightarrow> nat list" where
  "seeded_sample L s n k = fst (pick L (seeded L s) n k)"

text \<open>One sample scored by eight estimators.\<close>

definition eight_estimators :: matrix where
  "eight_estimators = [[1, 2, 3, 4, 5, 6, 7, 8]]"

subsection \<open>majority\_vote\<close>

text \<open>
  sklearn's \<^verbatim>\<open>check_classification_targets\<close> rejects a matrix with an entry that is not a
  whole number (the label type is then continuous).
\<close>

definition check_classification_targets :: "matrix \<Rightarrow> error + unit" where
  "check_classification_targets y =
     (if list_all (list_all (\<lambda>x. x = of_int \<lfloor>x\<rfloor>)) y then Inr () else Inl UnknownLabelType)"

text \<open>
  sklearn's \<^verbatim>\<open>weighted_mode(a, w)\<close> for a vector \<open>a\<close> and a weight array of rank 2, as
  \<open>majority_vote\<close> calls it. As the shapes differ, the weights are first brought to the
  shape of \<open>a\<close> with \<^verbatim>\<open>np.full(a.shape, w)\<close>, which works for a single weight row as long as
  \<open>a\<close>. Then the distinct values of \<open>a\<close> are visited in increasing order
  (\<^verbatim>\<open>np.unique\<close>); \<open>counts\<close> is the sum of the weights at the positions that hold the value,
  and the value replaces the most frequent one so far when its count is strictly larger.
  Both start at 0. The result is the pair \<^verbatim>\<open>(mostfrequent, oldcounts)\<close>.
\<close>

fun weighted_mode_loop :: "real list \<Rightarrow> real list \<Rightarrow> real list \<Rightarrow> real \<times> real \<Rightarrow> real \<times> real" where
  "weighted_mode_loop a w [] (oldmostfreq, oldcounts) = (oldmostfreq, oldcounts)"
| "weighted_mode_loop a w (score # rest) (oldmostfreq, oldcounts) =
     (let counts = sum_list (map2 (\<lambda>x wx. if x = score then wx else 0) a w);
          mostfrequent = (if counts > oldcounts then score else oldmostfreq)
      in weighted_mode_loop a w rest (mostfrequent, max counts oldcounts))"

definition weighted_mode :: "real list \<Rightarrow> real list list \<Rightarrow> error + (real \<times> real)" where
  "weighted_mode a w =
     (case w of
        [wv] \<Rightarrow> if length wv = length a
                 then Inr (weighted_mode_loop a wv (sort (remdups a)) (0, 0))
                 else Inl BroadcastError
      | _ \<Rightarrow> Inl BroadcastError)"

text \<open>
  \<^verbatim>\<open>majority_vote(scores, n_classes=2, weights=None)\<close>. \<open>vote_loop\<close> is the loop over the
  samples, which stores \<^verbatim>\<open>weighted_mode(scores[i, :], weights)[0][0]\<close> in \<^verbatim>\<open>vote_results[i]\<close>.
  \<^verbatim>\<open>weights.shape[1]\<close> does not exist for an array of rank 1. \<open>n_classes\<close> is not used.
\<close>

fun vote_loop :: "matrix \<Rightarrow> real list list \<Rightarrow> nat list \<Rightarrow> real list \<Rightarrow> error + real list" where
  "vote_loop scores weights [] vote_results = Inr vote_results"
| "vote_loop scores weights (i # rest) vote_results =
     (case weighted_mode (scores ! i) weights of
        Inl e \<Rightarrow> Inl e
      | Inr (mostfrequent, counts) \<Rightarrow>
          vote_loop scores weights rest (vote_results[i := mostfrequent]))"

definition majority_vote :: "matrix \<Rightarrow> nat \<Rightarrow> ndarray option \<Rightarrow> error + real list" where
  "majority_vote scores0 n_classes weights0 =
     (case check_array scores0 of
        Inl e \<Rightarrow> Inl e
      | Inr scores \<Rightarrow>
          (case check_classification_targets scores of
             Inl e \<Rightarrow> Inl e
           | Inr _ \<Rightarrow>
               (let n_samples = length scores;
                    n_estimators = n_cols scores;
                    vote_results = replicate n_samples 0
                in case (case weights0 of
                           Some (Array1 xs) \<Rightarrow> Inl IndexError
                         | Some (Array2 rows) \<Rightarrow>
                             if n_estimators = n_cols rows then Inr rows else Inl AssertionError
                         | None \<Rightarrow> Inr [replicate n_estimators 1]) of
                     Inl e \<Rightarrow> Inl e
                   | Inr weights \<Rightarrow> vote_loop scores weights [0..<n_samples] vote_results)))"

text \<open>
  \<open>votes row w l\<close>: the sum of the weights of the estimators that voted for label \<open>l\<close>.
  \<open>weighted_winner row w v\<close>: \<open>v\<close> is a label of the row with the largest sum of weights, and
  the smallest label among those with that sum.
\<close>

definition votes :: "real list \<Rightarrow> real list \<Rightarrow> real \<Rightarrow> real" where
  "votes row w l = (\<Sum>j<length row. if row ! j = l then w ! j else 0)"

definition weighted_winner :: "real list \<Rightarrow> real list \<Rightarrow> real \<Rightarrow> bool" where
  "weighted_winner row w v \<longleftrightarrow>
     v \<in> set row \<and> (\<forall>l \<in> set row. votes row w l \<le> votes row w v)
     \<and> (\<forall>l \<in> set row. votes row w l = votes row w v \<longrightarrow> v \<le> l)"

text \<open>Label matrices for running the model.\<close>

definition three_voters :: matrix where
  "three_voters = [[0, 0, 1], [1, 1, 0]]"

definition five_voters :: matrix where
  "five_voters = [[1, 2, 2, 1, 3]]"

section \<open>Properties\<close>

subsection \<open>Matrices that pass validation\<close>

lemma check_array_Inr:
  "check_array scores = Inr s \<Longrightarrow>
     s = scores \<and> scores \<noteq> [] \<and> 0 < n_cols scores \<and> (\<forall>r \<in> set scores. length r = n_cols scores)"
  by (cases scores) (auto simp: check_array_def n_cols_def list_ex_iff split: if_splits)

lemma shape_row:
  assumes "shape w = [1, n]"
  shows "\<exists>r. w = Array2 [r] \<and> length r = n"
proof (cases w)
  case (Array1 xs)
  with assms show ?thesis by simp
next
  case (Array2 rows)
  with assms have "length rows = 1" and "n_cols rows = n" by simp_all
  then show ?thesis using Array2
    by (cases rows) (auto simp: n_cols_def)
qed


subsection \<open>average\<close>



text \<open>
  C8 as stated fails: a 1-D weight array of the right length is rejected, because the source
  compares the whole shape with \<^verbatim>\<open>(1, n_estimators)\<close>.
\<close>

theorem average_rejects_1d_weights:
  "average [[1, 3]] (Some (Array1 [1, 3])) = Inl (BadWeightShape 2 [2])"
  by (simp add: average_def check_array_def n_cols_def)

text \<open>
  C8, amended. For a valid score matrix, \<open>average\<close> raises the shape error, which carries the
  expected estimator count and the received shape, exactly when the shape of the weight
  array differs from (1, n\_estimators).
\<close>

theorem average_shape_error_iff:
  assumes "check_array scores = Inr s"
  shows "((average scores (Some w) = Inl (BadWeightShape (n_cols s) (shape w)))
            \<longleftrightarrow> shape w \<noteq> [1, n_cols s])
         \<and> ((\<exists>n sh. average scores (Some w) = Inl (BadWeightShape n sh))
            \<longleftrightarrow> shape w \<noteq> [1, n_cols s])"
  using assms check_array_Inr [OF assms]
  by (auto simp: average_def)

theorem average_shape_error_iff_witness:
  "check_array [[1, 3], [2, 4]] = Inr [[1, 3], [2, 4]]
   \<and> average [[1, 3], [2, 4]] (Some (Array2 [[1, 3, 5]])) = Inl (BadWeightShape 2 [1, 3])
   \<and> average [[1, 3], [2, 4]] (Some (Array2 [[1, 3]])) \<noteq> Inl (BadWeightShape 2 [1, 2])"
proof -
  have c: "check_array [[1, 3], [2, 4]] = Inr [[1, 3], [2, 4]]"
    by (simp add: check_array_def)
  have n: "n_cols [[1, 3], [2, 4 :: real]] = 2"
    by (simp add: n_cols_def)
  have bad: "shape (Array2 [[1, 3, 5]]) = [1, 3]" and good: "shape (Array2 [[1, 3]]) = [1, 2]"
    by (simp_all add: n_cols_def)
  have "average [[1, 3], [2, 4]] (Some (Array2 [[1, 3, 5]])) = Inl (BadWeightShape 2 [1, 3])"
    using average_shape_error_iff [OF c, of "Array2 [[1, 3, 5]]"]
    unfolding n bad by simp
  moreover
  have "average [[1, 3], [2, 4]] (Some (Array2 [[1, 3]])) \<noteq> Inl (BadWeightShape 2 [1, 2])"
    using average_shape_error_iff [OF c, of "Array2 [[1, 3]]"]
    unfolding n good by simp
  ultimately show ?thesis using c by simp
qed

subsection \<open>The loops fill every bucket column\<close>

lemma n_cols_nonempty: "m \<noteq> [] \<Longrightarrow> \<forall>r \<in> set m. length r = n \<Longrightarrow> n_cols m = n"
  by (cases m) (auto simp: n_cols_def)

lemma select_columns_Inr:
  assumes "select_columns scores ind = Inr sub"
  shows "sub = map (\<lambda>row. columns_of row ind) scores" and "set ind \<subseteq> {..<n_cols scores}"
  using assms by (auto simp: select_columns_def columns_of_def list_ex_iff split: if_splits)

lemma reduce_Inr:
  assumes "(if mode = ''AOM'' then np_max_axis1 sub else np_mean_axis1 sub) = Inr col"
  shows "col = map (bucket_value mode) sub" and "n_cols sub \<noteq> 0"
  using assms by (auto simp: np_max_axis1_def np_mean_axis1_def bucket_value_def split: if_splits)

lemma set_column_Inr:
  assumes "set_column sb j col = Inr sb'" and "sb \<noteq> []" and "\<forall>r \<in> set sb. length r = nb"
    and "length col = length sb"
  shows "j < nb" and "length sb' = length sb" and "\<forall>r \<in> set sb'. length r = nb"
    and "\<forall>i<length sb. \<forall>j'<nb. sb' ! i ! j' = (if j' = j then col ! i else sb ! i ! j')"
proof -
  from assms(1) have j: "j < n_cols sb" and sb': "sb' = map2 (\<lambda>row x. row[j := x]) sb col"
    by (auto simp: set_column_def split: if_splits)
  from j n_cols_nonempty [OF assms(2,3)] show "j < nb" by simp
  from sb' assms(4) show "length sb' = length sb" by simp
  from sb' assms(3) show "\<forall>r \<in> set sb'. length r = nb"
    by (auto dest!: set_zip_leftD)
  from sb' assms(3,4) show "\<forall>i<length sb. \<forall>j'<nb. sb' ! i ! j' = (if j' = j then col ! i else sb ! i ! j')"
    by auto
qed

lemma fill_bucket_step:
  assumes fb: "fill_bucket mode scores ind k st = Inr st'"
    and inv: "filled mode scores nb k st"
    and ne: "scores \<noteq> []"
  shows "filled mode scores nb (Suc k) st' \<and> snd st' = snd st @ [ind]"
proof -
  from fb obtain sub col sb where
    sel: "select_columns scores ind = Inr sub"
    and red: "(if mode = ''AOM'' then np_max_axis1 sub else np_mean_axis1 sub) = Inr col"
    and setc: "set_column (fst st) k col = Inr sb"
    and st': "st' = (sb, snd st @ [ind])"
    by (auto simp: fill_bucket_def split: sum.splits)
  note sub = select_columns_Inr [OF sel]
  note col = reduce_Inr [OF red]
  from inv have shp: "length (fst st) = length scores" "\<forall>r \<in> set (fst st). length r = nb"
    and len: "length (snd st) = k"
    and old: "\<forall>b \<in> set (snd st). b \<noteq> [] \<and> set b \<subseteq> {..<n_cols scores}"
    and vals: "\<forall>i<length scores. \<forall>j<k. fst st ! i ! j = bucket_value mode (columns_of (scores ! i) (snd st ! j))"
    by (simp_all add: filled_def)
  from shp(1) ne have sbne: "fst st \<noteq> []" by auto
  have lcol: "length col = length (fst st)" using col(1) sub(1) shp(1) by simp
  note upd = set_column_Inr [OF setc sbne shp(2) lcol]
  have "n_cols sub = length ind" using sub(1) ne by (cases scores) (simp_all add: n_cols_def columns_of_def)
  with col(2) have indne: "ind \<noteq> []" by auto
  have coli: "\<forall>i<length scores. col ! i = bucket_value mode (columns_of (scores ! i) ind)"
    using col(1) sub(1) by simp
  have "\<forall>i<length scores. \<forall>j<Suc k. sb ! i ! j = bucket_value mode (columns_of (scores ! i) ((snd st @ [ind]) ! j))"
  proof (intro allI impI)
    fix i j assume i: "i < length scores" and j: "j < Suc k"
    from upd(1) j have jn: "j < nb" by simp
    from upd(4) i jn shp(1) have e: "sb ! i ! j = (if j = k then col ! i else fst st ! i ! j)" by simp
    show "sb ! i ! j = bucket_value mode (columns_of (scores ! i) ((snd st @ [ind]) ! j))"
    proof (cases "j = k")
      case True
      with e coli i len show ?thesis by (simp add: nth_append)
    next
      case False
      with j have "j < k" by simp
      with e vals i len False show ?thesis by (simp add: nth_append)
    qed
  qed
  with upd shp len old indne sub(2) st' show ?thesis
    by (auto simp: filled_def)
qed


lemma fill_bucket_snd: "fill_bucket mode scores ind k st = Inr st' \<Longrightarrow> snd st' = snd st @ [ind]"
  by (auto simp: fill_bucket_def split: sum.splits)

lemma filled_done: "filled mode scores nb k st \<Longrightarrow> nb \<le> k \<Longrightarrow> filled mode scores nb nb st"
  by (simp add: filled_def)

lemma static_loop_filled:
  assumes "static_loop mode scores sh m (map (\<lambda>k. k * m) [k0..<nb]) (k0 * m) st = Inr st'"
    and "filled mode scores nb k0 st" and "scores \<noteq> []" and "0 < m"
  shows "filled mode scores nb nb st'
         \<and> snd st' = snd st @ map (\<lambda>k. slice sh (k * m) (k * m + m)) [k0..<nb]"
  using assms
proof (induction "nb - k0" arbitrary: k0 st)
  case 0
  then show ?case by (simp add: filled_done)
next
  case (Suc d)
  then have lt: "k0 < nb" by simp
  then have up: "[k0..<nb] = k0 # [Suc k0..<nb]" by (simp add: upt_conv_Cons)
  from Suc.prems(1) obtain st1 where
    f: "fill_bucket mode scores (slice sh (k0 * m) (k0 * m + m)) k0 st = Inr st1"
    and r: "static_loop mode scores sh m (map (\<lambda>k. k * m) [Suc k0..<nb]) (Suc k0 * m) st1 = Inr st'"
    using \<open>0 < m\<close> by (auto simp: up Let_def add.commute split: sum.splits)
  from fill_bucket_step [OF f Suc.prems(2,3)]
  have inv1: "filled mode scores nb (Suc k0) st1"
    and tr1: "snd st1 = snd st @ [slice sh (k0 * m) (k0 * m + m)]" by simp_all
  from Suc.hyps(2) have d: "d = nb - Suc k0" by simp
  from Suc.hyps(1) [OF d r inv1 Suc.prems(3,4)] tr1 show ?case
    by (simp add: up)
qed

lemma bootstrap_loop_filled:
  assumes "bootstrap_loop L mode scores n m [k0..<nb] rs st = Inr st'"
    and "filled mode scores nb k0 st" and "scores \<noteq> []"
  shows "filled mode scores nb nb st'"
  using assms
proof (induction "nb - k0" arbitrary: k0 st rs)
  case 0
  then show ?case by (simp add: filled_done)
next
  case (Suc d)
  then have lt: "k0 < nb" by simp
  then have up: "[k0..<nb] = k0 # [Suc k0..<nb]" by (simp add: upt_conv_Cons)
  from Suc.prems(1) obtain ind rs1 st1 where
    f: "fill_bucket mode scores ind k0 st = Inr st1"
    and r: "bootstrap_loop L mode scores n m [Suc k0..<nb] rs1 st1 = Inr st'"
    by (auto simp: up split: sum.splits)
  from fill_bucket_step [OF f Suc.prems(2,3)]
  have inv1: "filled mode scores nb (Suc k0) st1" by simp
  from Suc.hyps(2) have d: "d = nb - Suc k0" by simp
  from Suc.hyps(1) [OF d r inv1 Suc.prems(3)] show ?case .
qed

lemma dynamic_loop_filled:
  assumes "dynamic_loop L mode scores n [k0..<nb] rs st = Inr st'"
    and "filled mode scores nb k0 st" and "scores \<noteq> []"
  shows "filled mode scores nb nb st'"
  using assms
proof (induction "nb - k0" arbitrary: k0 st rs)
  case 0
  then show ?case by (simp add: filled_done)
next
  case (Suc d)
  then have lt: "k0 < nb" by simp
  then have up: "[k0..<nb] = k0 # [Suc k0..<nb]" by (simp add: upt_conv_Cons)
  from Suc.prems(1) obtain ind rs1 st1 where
    f: "fill_bucket mode scores ind k0 st = Inr st1"
    and r: "dynamic_loop L mode scores n [Suc k0..<nb] rs1 st1 = Inr st'"
    by (auto simp: up split: sum.splits)
  from fill_bucket_step [OF f Suc.prems(2,3)]
  have inv1: "filled mode scores nb (Suc k0) st1" by simp
  from Suc.hyps(2) have d: "d = nb - Suc k0" by simp
  from Suc.hyps(1) [OF d r inv1 Suc.prems(3)] show ?case .
qed

lemma ceil_div_exact: "0 < (m::nat) \<Longrightarrow> (q * m + m - 1) div m = q"
proof -
  assume m: "0 < m"
  obtain p where p: "p = q * m" by simp
  have c: "m * q = p" "m * Suc q = p + m" using p by (simp_all add: mult.commute)
  have lo: "m * q \<le> q * m + m - 1" unfolding c p [symmetric] using m by arith
  have hi: "q * m + m - 1 < m * Suc q" unfolding c p [symmetric] using m by arith
  show ?thesis
    using lo hi by (rule div_nat_eqI)
qed

lemma py_range_exact: "0 < m \<Longrightarrow> py_range (q * m) m = map (\<lambda>k. k * m) [0..<q]"
  by (simp only: py_range_def ceil_div_exact)

lemma filled_zeros: "filled mode scores nb 0 (zeros (length scores) nb, [])"
  by (simp add: filled_def zeros_def)

lemma aom_moa_buckets_Inr:
  assumes "aom_moa_buckets L mode scores nb method boot rs = Inr st"
  shows "mode = ''AOM'' \<or> mode = ''MOA''" and "check_array scores = Inr scores"
    and "2 \<le> nb" and "nb \<le> n_cols scores"
proof -
  from assms show m: "mode = ''AOM'' \<or> mode = ''MOA''"
    by (auto simp: aom_moa_buckets_def split: if_splits)
  from assms obtain s where c: "check_array scores = Inr s"
    by (auto simp: aom_moa_buckets_def split: if_splits sum.splits)
  with check_array_Inr [OF c] show c': "check_array scores = Inr scores" by simp
  from assms m c' have "check_parameter nb 2 (n_cols scores) \<noteq> Inl ParameterRange"
    by (auto simp: aom_moa_buckets_def Let_def check_parameter_def split: if_splits)
  then show "2 \<le> nb" and "nb \<le> n_cols scores"
    by (auto simp: check_parameter_def split: if_splits)
qed

lemma aom_moa_buckets_valid:
  assumes "mode = ''AOM'' \<or> mode = ''MOA''" and "check_array scores = Inr scores"
    and "2 \<le> nb" and "nb \<le> n_cols scores"
  shows "aom_moa_buckets L mode scores nb method boot rs =
     (if method = ''static'' then
        if n_cols scores mod nb \<noteq> 0 then Inl UnevenBucket
        else if \<not> boot then
          static_loop mode scores (fst (shuffle L [0..<n_cols scores] rs)) (n_cols scores div nb)
            (py_range (n_cols scores) (n_cols scores div nb)) 0 (zeros (length scores) nb, [])
        else bootstrap_loop L mode scores (n_cols scores) (n_cols scores div nb) [0..<nb] rs
               (zeros (length scores) nb, [])
      else if method = ''dynamic'' then
        dynamic_loop L mode scores (n_cols scores) [0..<nb] rs (zeros (length scores) nb, [])
      else Inl (NotImplementedError method))"
proof -
  from assms(3,4) have "0 < n_cols scores div nb"
    by (simp add: div_greater_zero_iff)
  with assms show ?thesis
    by (auto simp: aom_moa_buckets_def check_parameter_def Let_def split: prod.splits)
qed

lemma aom_moa_buckets_filled:
  assumes "aom_moa_buckets L mode scores nb method boot rs = Inr st"
  shows "filled mode scores nb nb st"
proof -
  note v = aom_moa_buckets_Inr [OF assms]
  note eq = aom_moa_buckets_valid [OF v, of L "method" boot rs]
  from check_array_Inr [OF v(2)] have ne: "scores \<noteq> []" by simp
  let ?n = "n_cols scores"
  let ?m = "n_cols scores div nb"
  let ?z = "(zeros (length scores) nb, [])"
  have z: "filled mode scores nb 0 ?z" by (rule filled_zeros)
  from v(3,4) have m: "0 < ?m" by (simp add: div_greater_zero_iff)
  consider (static) "method = ''static''" "\<not> boot" | (boots) "method = ''static''" "boot"
    | (dynamic) "method \<noteq> ''static''" "method = ''dynamic''"
    | (other) "method \<noteq> ''static''" "method \<noteq> ''dynamic''"
    by blast
  then show ?thesis
  proof cases
    case static
    with assms eq have dv: "?n mod nb = 0"
      by (auto split: if_splits)
    then have n: "?n = nb * ?m" by auto
    have pr: "py_range ?n ?m = map (\<lambda>k. k * ?m) [0..<nb]"
      using py_range_exact [OF m, of nb] n by (simp add: mult.commute)
    from assms eq static dv have
      "static_loop mode scores (fst (shuffle L [0..<?n] rs)) ?m (py_range ?n ?m) 0 ?z = Inr st"
      by simp
    then have "static_loop mode scores (fst (shuffle L [0..<?n] rs)) ?m
                 (map (\<lambda>k. k * ?m) [0..<nb]) (0 * ?m) ?z = Inr st"
      by (simp add: pr)
    from static_loop_filled [OF this z ne m] show ?thesis by simp
  next
    case boots
    with assms eq have "bootstrap_loop L mode scores ?n ?m [0..<nb] rs ?z = Inr st"
      by (auto split: if_splits)
    from bootstrap_loop_filled [OF this z ne] show ?thesis .
  next
    case dynamic
    with assms eq have "dynamic_loop L mode scores ?n [0..<nb] rs ?z = Inr st"
      by simp
    from dynamic_loop_filled [OF this z ne] show ?thesis .
  next
    case other
    with assms eq show ?thesis by simp
  qed
qed


lemma filled_full:
  assumes "filled mode scores nb nb (sb, bs)"
  shows "sb = map (\<lambda>row. map (\<lambda>b. bucket_value mode (columns_of row b)) bs) scores"
proof (rule nth_equalityI)
  from assms show "length sb = length (map (\<lambda>row. map (\<lambda>b. bucket_value mode (columns_of row b)) bs) scores)"
    by (simp add: filled_def)
next
  fix i assume "i < length sb"
  with assms have i: "i < length scores" by (simp add: filled_def)
  with assms have li: "length (sb ! i) = nb" by (simp add: filled_def)
  from assms have lb: "length bs = nb" by (simp add: filled_def)
  have "sb ! i = map (\<lambda>b. bucket_value mode (columns_of (scores ! i) b)) bs"
  proof (rule nth_equalityI)
    show "length (sb ! i) = length (map (\<lambda>b. bucket_value mode (columns_of (scores ! i) b)) bs)"
      using li lb by simp
  next
    fix j assume "j < length (sb ! i)"
    with li have "j < nb" by simp
    with assms i lb show "sb ! i ! j = map (\<lambda>b. bucket_value mode (columns_of (scores ! i) b)) bs ! j"
      by (simp add: filled_def)
  qed
  with i show "sb ! i = map (\<lambda>row. map (\<lambda>b. bucket_value mode (columns_of row b)) bs) scores ! i"
    by simp
qed

lemma aom_moa_helper_eq:
  "aom_moa_helper L mode scores nb method boot rs =
     (case bucket_assignment L mode scores nb method boot rs of
        Inl e \<Rightarrow> Inl e
      | Inr bs \<Rightarrow>
          Inr (map (\<lambda>row. if mode = ''AOM''
                            then mean (map (\<lambda>b. amax (columns_of row b)) bs)
                            else amax (map (\<lambda>b. mean (columns_of row b)) bs)) scores))"
proof (cases "aom_moa_buckets L mode scores nb method boot rs")
  case (Inl e)
  then show ?thesis by (simp add: aom_moa_helper_def bucket_assignment_def)
next
  case (Inr st)
  obtain sb bs where st: "st = (sb, bs)" by (cases st)
  from Inr st have f: "filled mode scores nb nb (sb, bs)"
    using aom_moa_buckets_filled by blast
  note v = aom_moa_buckets_Inr [OF Inr]
  from check_array_Inr [OF v(2)] have ne: "scores \<noteq> []" by simp
  note sb = filled_full [OF f]
  from f have lb: "length bs = nb" by (simp add: filled_def)
  have "n_cols sb = nb"
    using sb ne lb by (cases scores) (simp_all add: n_cols_def)
  with v(3) have nz: "n_cols sb \<noteq> 0" by simp
  show ?thesis
  proof (cases "mode = ''AOM''")
    case True
    then have "aom_moa_helper L mode scores nb method boot rs = Inr (map mean sb)"
      using Inr st nz by (simp add: aom_moa_helper_def np_mean_axis1_def)
    also have "map mean sb = map (\<lambda>row. mean (map (\<lambda>b. amax (columns_of row b)) bs)) scores"
      using True by (subst sb) (simp add: bucket_value_def)
    finally show ?thesis using Inr st True by (simp add: bucket_assignment_def)
  next
    case False
    then have "aom_moa_helper L mode scores nb method boot rs = Inr (map amax sb)"
      using Inr st nz by (simp add: aom_moa_helper_def np_max_axis1_def)
    also have "map amax sb = map (\<lambda>row. amax (map (\<lambda>b. mean (columns_of row b)) bs)) scores"
      using False by (subst sb) (simp add: bucket_value_def)
    finally show ?thesis using Inr st False by (simp add: bucket_assignment_def)
  qed
qed

lemma bucket_assignment_Inr:
  assumes "bucket_assignment L mode scores nb method boot rs = Inr bs"
  shows "length bs = nb" and "\<forall>b \<in> set bs. b \<noteq> [] \<and> set b \<subseteq> {..<n_cols scores}"
    and "mode = ''AOM'' \<or> mode = ''MOA''" and "check_array scores = Inr scores"
    and "2 \<le> nb" and "nb \<le> n_cols scores"
proof -
  from assms obtain sb where b: "aom_moa_buckets L mode scores nb method boot rs = Inr (sb, bs)"
    by (auto simp: bucket_assignment_def split: sum.splits)
  from aom_moa_buckets_filled [OF b]
  show "length bs = nb" and "\<forall>b \<in> set bs. b \<noteq> [] \<and> set b \<subseteq> {..<n_cols scores}"
    by (simp_all add: filled_def)
  from aom_moa_buckets_Inr [OF b]
  show "mode = ''AOM'' \<or> mode = ''MOA''" and "check_array scores = Inr scores"
    and "2 \<le> nb" and "nb \<le> n_cols scores" .
qed

subsection \<open>Both modes build the same buckets\<close>

lemma fill_bucket_succeeds:
  assumes "ind \<noteq> []" and "set ind \<subseteq> {..<n_cols scores}" and "k < nb"
    and "filled mode scores nb k st" and "scores \<noteq> []"
  shows "\<exists>st'. fill_bucket mode scores ind k st = Inr st'"
proof -
  let ?sub = "map (\<lambda>row. map (\<lambda>j. row ! j) ind) scores"
  from assms(2) have sel: "select_columns scores ind = Inr ?sub"
    by (auto simp: select_columns_def list_ex_iff)
  from assms(1,5) have "n_cols ?sub \<noteq> 0"
    by (cases scores) (simp_all add: n_cols_def)
  then have "\<exists>col. (if mode = ''AOM'' then np_max_axis1 ?sub else np_mean_axis1 ?sub) = Inr col"
    by (simp add: np_max_axis1_def np_mean_axis1_def)
  then obtain col where
    red: "(if mode = ''AOM'' then np_max_axis1 ?sub else np_mean_axis1 ?sub) = Inr col"
    by blast
  from assms(4) have shp: "length (fst st) = length scores" "\<forall>r \<in> set (fst st). length r = nb"
    by (simp_all add: filled_def)
  with assms(5) have "fst st \<noteq> []" by auto
  from n_cols_nonempty [OF this shp(2)] assms(3) have "\<not> n_cols (fst st) \<le> k" by simp
  then obtain sb where "set_column (fst st) k col = Inr sb"
    by (simp add: set_column_def)
  with sel red show ?thesis by (simp add: fill_bucket_def)
qed

lemma fill_bucket_Inr_bucket:
  assumes "fill_bucket mode scores ind k st = Inr st'" and "filled mode scores nb k st"
    and "scores \<noteq> []"
  shows "ind \<noteq> []" and "set ind \<subseteq> {..<n_cols scores}" and "k < nb"
proof -
  from fill_bucket_step [OF assms] have f: "filled mode scores nb (Suc k) st'"
    and t: "snd st' = snd st @ [ind]" by simp_all
  from f t show "ind \<noteq> []" and "set ind \<subseteq> {..<n_cols scores}" and "k < nb"
    by (simp_all add: filled_def)
qed

lemma fill_bucket_other_mode:
  assumes "fill_bucket mode scores ind k st = Inr st'" and "filled mode scores nb k st"
    and "filled mode' scores nb k su" and "scores \<noteq> []"
  shows "\<exists>su'. fill_bucket mode' scores ind k su = Inr su'"
  using fill_bucket_Inr_bucket [OF assms(1,2,4)] assms(3,4)
  by (intro fill_bucket_succeeds) 

lemma static_loop_other_mode:
  assumes "static_loop mode scores sh m (map (\<lambda>k. k * m) [k0..<nb]) (k0 * m) st = Inr st'"
    and "filled mode scores nb k0 st" and "filled mode' scores nb k0 su"
    and "snd su = snd st" and "scores \<noteq> []" and "0 < m"
  shows "\<exists>su'. static_loop mode' scores sh m (map (\<lambda>k. k * m) [k0..<nb]) (k0 * m) su = Inr su'
               \<and> snd su' = snd st'"
  using assms
proof (induction "nb - k0" arbitrary: k0 st su)
  case 0
  then show ?case by simp
next
  case (Suc d)
  then have lt: "k0 < nb" by simp
  then have up: "[k0..<nb] = k0 # [Suc k0..<nb]" by (simp add: upt_conv_Cons)
  let ?ind = "slice sh (k0 * m) (k0 * m + m)"
  from Suc.prems(1) obtain st1 where
    f: "fill_bucket mode scores ?ind k0 st = Inr st1"
    and r: "static_loop mode scores sh m (map (\<lambda>k. k * m) [Suc k0..<nb]) (Suc k0 * m) st1 = Inr st'"
    using \<open>0 < m\<close> by (auto simp: up Let_def add.commute split: sum.splits)
  from fill_bucket_other_mode [OF f Suc.prems(2,3,5)] obtain su1 where
    f': "fill_bucket mode' scores ?ind k0 su = Inr su1" by blast
  from fill_bucket_step [OF f Suc.prems(2,5)] fill_bucket_step [OF f' Suc.prems(3,5)] Suc.prems(4)
  have i1: "filled mode scores nb (Suc k0) st1" and i2: "filled mode' scores nb (Suc k0) su1"
    and tr: "snd su1 = snd st1" by simp_all
  from Suc.hyps(2) have d: "d = nb - Suc k0" by simp
  from Suc.hyps(1) [OF d r i1 i2 tr Suc.prems(5,6)] f' \<open>0 < m\<close> show ?case
    by (simp add: up Let_def add.commute)
qed

lemma bootstrap_loop_other_mode:
  assumes "bootstrap_loop L mode scores n m [k0..<nb] r st = Inr st'"
    and "filled mode scores nb k0 st" and "filled mode' scores nb k0 su"
    and "snd su = snd st" and "scores \<noteq> []"
  shows "\<exists>su'. bootstrap_loop L mode' scores n m [k0..<nb] r su = Inr su' \<and> snd su' = snd st'"
  using assms
proof (induction "nb - k0" arbitrary: k0 st su r)
  case 0
  then show ?case by simp
next
  case (Suc d)
  then have lt: "k0 < nb" by simp
  then have up: "[k0..<nb] = k0 # [Suc k0..<nb]" by (simp add: upt_conv_Cons)
  from Suc.prems(1) obtain ind r1 st1 where
    sm: "sample_without_replacement L n (int m) r = Inr (ind, r1)"
    and f: "fill_bucket mode scores ind k0 st = Inr st1"
    and lp: "bootstrap_loop L mode scores n m [Suc k0..<nb] r1 st1 = Inr st'"
    by (auto simp: up split: sum.splits)
  from fill_bucket_other_mode [OF f Suc.prems(2,3,5)] obtain su1 where
    f': "fill_bucket mode' scores ind k0 su = Inr su1" by blast
  from fill_bucket_step [OF f Suc.prems(2,5)] fill_bucket_step [OF f' Suc.prems(3,5)] Suc.prems(4)
  have i1: "filled mode scores nb (Suc k0) st1" and i2: "filled mode' scores nb (Suc k0) su1"
    and tr: "snd su1 = snd st1" by simp_all
  from Suc.hyps(2) have d: "d = nb - Suc k0" by simp
  from Suc.hyps(1) [OF d lp i1 i2 tr Suc.prems(5)] sm f' show ?case
    by (simp add: up)
qed

lemma dynamic_loop_other_mode:
  assumes "dynamic_loop L mode scores n [k0..<nb] r st = Inr st'"
    and "filled mode scores nb k0 st" and "filled mode' scores nb k0 su"
    and "snd su = snd st" and "scores \<noteq> []"
  shows "\<exists>su'. dynamic_loop L mode' scores n [k0..<nb] r su = Inr su' \<and> snd su' = snd st'"
  using assms
proof (induction "nb - k0" arbitrary: k0 st su r)
  case 0
  then show ?case by simp
next
  case (Suc d)
  then have lt: "k0 < nb" by simp
  then have up: "[k0..<nb] = k0 # [Suc k0..<nb]" by (simp add: upt_conv_Cons)
  from Suc.prems(1) obtain g sz ind r1 st1 where
    rs: "RandomState L r k0 = Inr g"
    and ri: "randint L g 2 (int (n div 2)) = Inr sz"
    and sm: "sample_without_replacement L n sz r = Inr (ind, r1)"
    and f: "fill_bucket mode scores ind k0 st = Inr st1"
    and lp: "dynamic_loop L mode scores n [Suc k0..<nb] r1 st1 = Inr st'"
    by (auto simp: up split: sum.splits)
  from fill_bucket_other_mode [OF f Suc.prems(2,3,5)] obtain su1 where
    f': "fill_bucket mode' scores ind k0 su = Inr su1" by blast
  from fill_bucket_step [OF f Suc.prems(2,5)] fill_bucket_step [OF f' Suc.prems(3,5)] Suc.prems(4)
  have i1: "filled mode scores nb (Suc k0) st1" and i2: "filled mode' scores nb (Suc k0) su1"
    and tr: "snd su1 = snd st1" by simp_all
  from Suc.hyps(2) have d: "d = nb - Suc k0" by simp
  from Suc.hyps(1) [OF d lp i1 i2 tr Suc.prems(5)] rs ri sm f' show ?case
    by (simp add: up)
qed

lemma bucket_assignment_other_mode:
  assumes "bucket_assignment L mode scores nb meth boot r = Inr bs"
    and "mode' = ''AOM'' \<or> mode' = ''MOA''"
  shows "bucket_assignment L mode' scores nb meth boot r = Inr bs"
proof -
  let ?n = "n_cols scores"
  let ?m = "n_cols scores div nb"
  let ?z = "(zeros (length scores) nb, [])"
  from assms(1) obtain sb where b: "aom_moa_buckets L mode scores nb meth boot r = Inr (sb, bs)"
    by (auto simp: bucket_assignment_def split: sum.splits)
  note v = aom_moa_buckets_Inr [OF b]
  note eq = aom_moa_buckets_valid [OF v, of L "meth" boot r]
  note eq' = aom_moa_buckets_valid [OF assms(2) v(2-4), of L "meth" boot r]
  from check_array_Inr [OF v(2)] have ne: "scores \<noteq> []" by simp
  from v(3,4) have m: "0 < ?m" by (simp add: div_greater_zero_iff)
  have z: "filled mode scores nb 0 ?z" "filled mode' scores nb 0 ?z" by (rule filled_zeros)+
  consider (static) "meth = ''static''" "\<not> boot" | (boots) "meth = ''static''" "boot"
    | (dynamic) "meth \<noteq> ''static''" "meth = ''dynamic''"
    | (other) "meth \<noteq> ''static''" "meth \<noteq> ''dynamic''"
    by blast
  then have "\<exists>su. aom_moa_buckets L mode' scores nb meth boot r = Inr (su, bs)"
  proof cases
    case static
    with b eq have dv: "?n mod nb = 0" by (auto split: if_splits)
    then have n: "?n = nb * ?m" by auto
    have pr: "py_range ?n ?m = map (\<lambda>k. k * ?m) [0..<nb]"
      using py_range_exact [OF m, of nb] n by (simp add: mult.commute)
    from b eq static dv have
      "static_loop mode scores (fst (shuffle L [0..<?n] r)) ?m
         (map (\<lambda>k. k * ?m) [0..<nb]) (0 * ?m) ?z = Inr (sb, bs)"
      by (simp add: pr)
    from static_loop_other_mode [OF this z refl ne m] eq' static dv pr
    show ?thesis by auto
  next
    case boots
    with b eq have dv: "?n mod nb = 0" by (auto split: if_splits)
    with b eq boots have "bootstrap_loop L mode scores ?n ?m [0..<nb] r ?z = Inr (sb, bs)"
      by simp
    from bootstrap_loop_other_mode [OF this z refl ne] eq' boots dv
    show ?thesis by auto
  next
    case dynamic
    with b eq have "dynamic_loop L mode scores ?n [0..<nb] r ?z = Inr (sb, bs)"
      by simp
    from dynamic_loop_other_mode [OF this z refl ne] eq' dynamic
    show ?thesis by auto
  next
    case other
    with b eq show ?thesis by simp
  qed
  then show ?thesis by (auto simp: bucket_assignment_def)
qed

text \<open>
  C1. \<open>aom\<close> returns, for every sample, the mean over all buckets of the maximum over the
  bucket's estimator columns, and \<open>moa\<close> returns the maximum over all buckets of the mean over
  the bucket's columns; the buckets are those of the call's bucket assignment, and a call
  fails exactly when building the assignment fails. Both modes build the same assignment.
\<close>

theorem aom_moa_duality:
  "aom L scores nb method boot rs =
     (case bucket_assignment L ''AOM'' scores nb method boot rs of
        Inl e \<Rightarrow> Inl e
      | Inr buckets \<Rightarrow>
          Inr (map (\<lambda>row. mean (map (\<lambda>b. amax (map (\<lambda>j. row ! j) b)) buckets)) scores))
   \<and> moa L scores nb method boot rs =
     (case bucket_assignment L ''MOA'' scores nb method boot rs of
        Inl e \<Rightarrow> Inl e
      | Inr buckets \<Rightarrow>
          Inr (map (\<lambda>row. amax (map (\<lambda>b. mean (map (\<lambda>j. row ! j) b)) buckets)) scores))
   \<and> (\<forall>buckets. bucket_assignment L ''AOM'' scores nb method boot rs = Inr buckets
                  \<longleftrightarrow> bucket_assignment L ''MOA'' scores nb method boot rs = Inr buckets)"
proof -
  have same: "bucket_assignment L ''AOM'' scores nb method boot rs = Inr buckets
          \<longleftrightarrow> bucket_assignment L ''MOA'' scores nb method boot rs = Inr buckets" for buckets
    using bucket_assignment_other_mode [of L "''AOM''" scores nb "method" boot rs buckets "''MOA''"]
      bucket_assignment_other_mode [of L "''MOA''" scores nb "method" boot rs buckets "''AOM''"]
    by auto
  have a: "aom L scores nb method boot rs =
     (case bucket_assignment L ''AOM'' scores nb method boot rs of
        Inl e \<Rightarrow> Inl e
      | Inr buckets \<Rightarrow>
          Inr (map (\<lambda>row. mean (map (\<lambda>b. amax (map (\<lambda>j. row ! j) b)) buckets)) scores))"
    by (simp add: aom_def aom_moa_helper_eq columns_of_def split: sum.splits)
  have m: "moa L scores nb method boot rs =
     (case bucket_assignment L ''MOA'' scores nb method boot rs of
        Inl e \<Rightarrow> Inl e
      | Inr buckets \<Rightarrow>
          Inr (map (\<lambda>row. amax (map (\<lambda>b. mean (map (\<lambda>j. row ! j) b)) buckets)) scores))"
    by (simp add: moa_def aom_moa_helper_eq columns_of_def split: sum.splits)
  show ?thesis
    by (intro conjI allI a m same)
qed

theorem aom_moa_duality_witness:
  "bucket_assignment rotating ''AOM'' [[1, 2, 3, 4], [4, 3, 2, 1]] 2 ''static'' False (RS_int 1)
     = Inr [[1, 2], [3, 0]]
   \<and> bucket_assignment rotating ''MOA'' [[1, 2, 3, 4], [4, 3, 2, 1]] 2 ''static'' False (RS_int 1)
     = Inr [[1, 2], [3, 0]]
   \<and> aom rotating [[1, 2, 3, 4], [4, 3, 2, 1]] 2 ''static'' False (RS_int 1) = Inr [7 / 2, 7 / 2]
   \<and> moa rotating [[1, 2, 3, 4], [4, 3, 2, 1]] 2 ''static'' False (RS_int 1) = Inr [5 / 2, 5 / 2]"
proof -
  have a: "bucket_assignment rotating ''AOM'' [[1, 2, 3, 4], [4, 3, 2, 1]] 2 ''static'' False
             (RS_int 1) = Inr [[1, 2], [3, 0]]"
    by code_simp
  have m: "bucket_assignment rotating ''MOA'' [[1, 2, 3, 4], [4, 3, 2, 1]] 2 ''static'' False
             (RS_int 1) = Inr [[1, 2], [3, 0]]"
    by code_simp
  show ?thesis
    using aom_moa_duality [of rotating "[[1, 2, 3, 4], [4, 3, 2, 1]]" 2 "''static''" False "RS_int 1"]
    unfolding a m by (simp add: amax_def mean_def)
qed

subsection \<open>Bounds\<close>









subsection \<open>The static partition\<close>

lemma concat_slices:
  "concat (map (\<lambda>k. slice xs (k * m) (k * m + m)) [0..<q]) = take (q * m) xs"
proof (induction q)
  case 0
  then show ?case by simp
next
  case (Suc q)
  have "take (q * m) (take (q * m + m) xs) @ drop (q * m) (take (q * m + m) xs)
          = take (q * m + m) xs"
    by (rule append_take_drop_id)
  moreover have "take (q * m) (take (q * m + m) xs) = take (q * m) xs"
    by (simp add: min_def)
  ultimately have "take (q * m) xs @ slice xs (q * m) (q * m + m) = take (q * m + m) xs"
    by (simp add: slice_def)
  with Suc show ?case by (simp add: add.commute)
qed

lemma length_slice:
  assumes "k < q" and "length xs = q * m"
  shows "length (slice xs (k * m) (k * m + m)) = m"
proof -
  from assms(1) have "Suc k * m \<le> q * m" by (intro mult_le_mono1) simp
  with assms(2) show ?thesis by (simp add: slice_def)
qed

lemma distinct_concat_disjoint:
  "distinct (concat xss) \<Longrightarrow> i < j \<Longrightarrow> j < length xss \<Longrightarrow> set (xss ! i) \<inter> set (xss ! j) = {}"
proof (induction xss arbitrary: i j)
  case Nil
  then show ?case by simp
next
  case (Cons xs xss)
  from Cons.prems(2) obtain j' where j: "j = Suc j'" by (cases j) auto
  show ?case
  proof (cases i)
    case 0
    from Cons.prems(3) j have "xss ! j' \<in> set xss" by simp
    with Cons.prems(1) 0 j show ?thesis by auto
  next
    case (Suc i')
    with Cons.prems j have "set (xss ! i') \<inter> set (xss ! j') = {}"
      by (intro Cons.IH) simp_all
    with Suc j show ?thesis by simp
  qed
qed

lemma distinct_concat_unique:
  assumes "distinct (concat xss)" and "i < length xss" and "j < length xss"
    and "x \<in> set (xss ! i)" and "x \<in> set (xss ! j)"
  shows "i = j"
proof (rule ccontr)
  assume "i \<noteq> j"
  then consider "i < j" | "j < i" by linarith
  then show False
    using distinct_concat_disjoint [OF assms(1), of i j] distinct_concat_disjoint [OF assms(1), of j i]
      assms(2-5) by cases auto
qed

lemma static_assignment:
  assumes "bucket_assignment L mode scores nb ''static'' False rs = Inr bs"
  shows "n_cols scores mod nb = 0"
    and "bs = map (\<lambda>k. slice (fst (shuffle L [0..<n_cols scores] rs))
                         (k * (n_cols scores div nb))
                         (k * (n_cols scores div nb) + n_cols scores div nb)) [0..<nb]"
proof -
  let ?n = "n_cols scores"
  let ?m = "n_cols scores div nb"
  let ?z = "(zeros (length scores) nb, [])"
  let ?sh = "fst (shuffle L [0..<?n] rs)"
  from assms obtain sb where b: "aom_moa_buckets L mode scores nb ''static'' False rs = Inr (sb, bs)"
    by (auto simp: bucket_assignment_def split: sum.splits)
  note v = aom_moa_buckets_Inr [OF b]
  note eq = aom_moa_buckets_valid [OF v, of L "''static''" False rs]
  from check_array_Inr [OF v(2)] have ne: "scores \<noteq> []" by simp
  from v(3,4) have m: "0 < ?m" by (simp add: div_greater_zero_iff)
  from b eq show dv: "?n mod nb = 0" by (auto split: if_splits)
  then have n: "?n = nb * ?m" by auto
  have pr: "py_range ?n ?m = map (\<lambda>k. k * ?m) [0..<nb]"
    using py_range_exact [OF m, of nb] n by (simp add: mult.commute)
  from b eq dv have "static_loop mode scores ?sh ?m (py_range ?n ?m) 0 ?z = Inr (sb, bs)"
    by simp
  then have "static_loop mode scores ?sh ?m (map (\<lambda>k. k * ?m) [0..<nb]) (0 * ?m) ?z = Inr (sb, bs)"
    by (simp add: pr)
  from static_loop_filled [OF this filled_zeros ne m]
  show "bs = map (\<lambda>k. slice ?sh (k * ?m) (k * ?m + ?m)) [0..<nb]" by simp
qed

text \<open>
  C2. In a static call without bootstrap that succeeds, the buckets are the \<open>n_buckets\<close>
  consecutive slices of length \<open>n_estimators div n_buckets\<close> of the shuffled index sequence
  \<open>0, ..., n_estimators - 1\<close>. If the shuffle returns a permutation, the buckets put together
  are that permutation, so every estimator index lies in exactly one bucket, once.
\<close>

theorem static_buckets_partition:
  assumes "bucket_assignment L mode scores nb ''static'' False rs = Inr bs"
    and "shuffle_permutes L"
  shows "bs = map (\<lambda>k. slice (fst (shuffle L [0..<n_cols scores] rs))
                         (k * (n_cols scores div nb))
                         (k * (n_cols scores div nb) + n_cols scores div nb)) [0..<nb]
         \<and> length bs = nb
         \<and> (\<forall>b \<in> set bs. length b = n_cols scores div nb)
         \<and> concat bs = fst (shuffle L [0..<n_cols scores] rs)
         \<and> mset (concat bs) = mset [0..<n_cols scores]
         \<and> (\<forall>j<n_cols scores. \<exists>!k. k < nb \<and> j \<in> set (bs ! k))
         \<and> (\<forall>b \<in> set bs. distinct b)"
proof -
  let ?n = "n_cols scores"
  let ?m = "n_cols scores div nb"
  let ?sh = "fst (shuffle L [0..<?n] rs)"
  note s = static_assignment [OF assms(1)]
  from s(1) have n: "?n = nb * ?m" by auto
  have "?sh = fst (permute L (check_random_state L rs) [0..<?n])"
    by (simp add: shuffle_def split: prod.splits)
  with assms(2) have perm: "mset ?sh = mset [0..<?n]"
    by (simp add: shuffle_permutes_def)
  then have "length ?sh = ?n" by (metis size_mset length_upt diff_zero)
  with n have len: "length ?sh = nb * ?m" by simp
  from s(2) have lb: "length bs = nb" by simp
  have lens: "\<forall>b \<in> set bs. length b = ?m"
    using length_slice [of _ nb ?sh ?m] len by (auto simp: s(2) mult.commute)
  have cc: "concat bs = ?sh"
    using concat_slices [of ?sh ?m nb] len by (simp add: s(2))
  with perm have ms: "mset (concat bs) = mset [0..<?n]" by simp
  then have d: "distinct (concat bs)" by (metis distinct_upt mset_eq_imp_distinct_iff)
  from ms have st: "set (concat bs) = {..<?n}" by (metis atLeast_upt mset_eq_setD)
  have ex1: "\<exists>!k. k < nb \<and> j \<in> set (bs ! k)" if j: "j < ?n" for j
  proof -
    from j st have "j \<in> set (concat bs)" by simp
    then obtain b where "b \<in> set bs" "j \<in> set b" by auto
    then obtain k where k: "k < nb" "j \<in> set (bs ! k)"
      using lb by (auto simp: in_set_conv_nth)
    show ?thesis
    proof (rule ex1I [of _ k])
      from k show "k < nb \<and> j \<in> set (bs ! k)" by simp
    next
      fix k' assume "k' < nb \<and> j \<in> set (bs ! k')"
      with k lb show "k' = k"
        using distinct_concat_unique [OF d, of k' k j] by simp
    qed
  qed
  from d have db: "\<forall>b \<in> set bs. distinct b" by (simp add: distinct_concat_iff)
  from s(2) lb lens cc ms ex1 db show ?thesis by blast
qed

lemma mset_rotate: "mset (rotate n xs) = mset xs"
proof -
  let ?k = "n mod length xs"
  have "mset (drop ?k xs @ take ?k xs) = mset (take ?k xs @ drop ?k xs)"
    by (simp only: mset_append union_commute)
  then show ?thesis by (simp add: rotate_drop_take)
qed

theorem static_buckets_partition_witness:
  "bucket_assignment rotating ''AOM'' two_samples 2 ''static'' False (RS_int 1)
     = Inr [[1, 2], [3, 0]]
   \<and> shuffle_permutes rotating
   \<and> length [[1, 2], [3, 0 :: nat]] = 2
   \<and> concat [[1, 2], [3, 0]] = fst (shuffle rotating [0..<n_cols two_samples] (RS_int 1))
   \<and> mset (concat [[1, 2], [3, 0]]) = mset [0..<n_cols two_samples]"
proof -
  have ba: "bucket_assignment rotating ''AOM'' two_samples 2 ''static'' False (RS_int 1)
              = Inr [[1, 2], [3, 0]]"
    by code_simp
  have sp: "shuffle_permutes rotating"
    by (simp add: shuffle_permutes_def rotating_def mset_rotate)
  note p = static_buckets_partition [OF ba sp, THEN conjunct2]
  note q = p [THEN conjunct2, THEN conjunct2]
  show ?thesis
    by (intro conjI ba sp p [THEN conjunct1] q [THEN conjunct1] q [THEN conjunct2, THEN conjunct1])
qed

subsection \<open>Bootstrap with an integer seed\<close>

lemma same_source_refl: "same_source r r"
  by (cases r) simp_all

lemma same_source_after_draw: "same_source (after_draw r g) r' \<Longrightarrow> same_source r r'"
  by (cases r; cases r') simp_all

lemma same_source_int: "same_source (RS_int s) r \<longleftrightarrow> r = RS_int s"
  by (cases r) auto

lemma same_source_none: "same_source (RS_none g) r \<Longrightarrow> \<exists>g'. r = RS_none g'"
  by (cases r) auto

lemma sample_Inr:
  assumes "sample_without_replacement L n sz r = Inr (ind, r')"
  shows "sampled_bucket L n sz r ind" and "\<exists>g. r' = after_draw r g"
  using assms
  by (auto simp: sample_without_replacement_def sampled_bucket_def split: if_splits prod.splits)


lemma dynamic_loop_buckets:
  assumes "dynamic_loop L mode scores n [k0..<nb] r st = Inr st'"
  shows "\<exists>bs. snd st' = snd st @ bs \<and> length bs = nb - k0
           \<and> (\<forall>k<nb - k0. \<exists>rk. same_source r rk \<and> dynamic_bucket L n rk (k0 + k) (bs ! k))"
  using assms
proof (induction "nb - k0" arbitrary: k0 st r)
  case 0
  then show ?case by simp
next
  case (Suc d)
  then have lt: "k0 < nb" by simp
  then have up: "[k0..<nb] = k0 # [Suc k0..<nb]" by (simp add: upt_conv_Cons)
  from Suc.prems obtain g sz ind r1 st1 where
    rs: "RandomState L r k0 = Inr g"
    and ri: "randint L g 2 (int (n div 2)) = Inr sz"
    and sm: "sample_without_replacement L n sz r = Inr (ind, r1)"
    and f: "fill_bucket mode scores ind k0 st = Inr st1"
    and lp: "dynamic_loop L mode scores n [Suc k0..<nb] r1 st1 = Inr st'"
    by (auto simp: up split: sum.splits)
  note s = sample_Inr [OF sm]
  from ri have rng: "2 < int (n div 2)" and sz: "sz = fst (draw L g 2 (int (n div 2)))"
    by (auto simp: randint_def split: if_splits)
  from rs rng sz s(1) have first: "dynamic_bucket L n r k0 ind"
    by (simp add: dynamic_bucket_def)
  from Suc.hyps(2) have d: "d = nb - Suc k0" by simp
  from Suc.hyps(1) [OF d lp] obtain bs where
    bs: "snd st' = snd st1 @ bs" "length bs = nb - Suc k0"
      "\<forall>k<nb - Suc k0. \<exists>rk. same_source r1 rk \<and> dynamic_bucket L n rk (Suc k0 + k) (bs ! k)"
    by blast
  have "\<exists>rk. same_source r rk \<and> dynamic_bucket L n rk (k0 + k) ((ind # bs) ! k)"
    if "k < nb - k0" for k
  proof (cases k)
    case 0
    with first show ?thesis using same_source_refl [of r] by auto
  next
    case (Suc k')
    with that have "k' < nb - Suc k0" by simp
    with bs(3) obtain rk where rk: "same_source r1 rk" "dynamic_bucket L n rk (Suc k0 + k') (bs ! k')"
      by blast
    from s(2) obtain g' where "r1 = after_draw r g'" by blast
    with rk(1) have "same_source r rk" using same_source_after_draw [of r g' rk] by simp
    with rk(2) Suc show ?thesis by (intro exI [of _ rk]) simp
  qed
  moreover from bs(1) fill_bucket_snd [OF f] have "snd st' = snd st @ (ind # bs)" by simp
  moreover from bs(2) lt have "length (ind # bs) = nb - k0" by simp
  ultimately show ?case by blast
qed


lemma dynamic_assignment:
  assumes "bucket_assignment L mode scores nb ''dynamic'' boot r = Inr bs"
  shows "\<forall>k<nb. \<exists>rk. same_source r rk \<and> dynamic_bucket L (n_cols scores) rk k (bs ! k)"
proof -
  from assms obtain sb where b: "aom_moa_buckets L mode scores nb ''dynamic'' boot r = Inr (sb, bs)"
    by (auto simp: bucket_assignment_def split: sum.splits)
  note v = aom_moa_buckets_Inr [OF b]
  note eq = aom_moa_buckets_valid [OF v, of L "''dynamic''" boot r]
  from b eq have "dynamic_loop L mode scores (n_cols scores) [0..<nb] r
      (zeros (length scores) nb, []) = Inr (sb, bs)" by simp
  from dynamic_loop_buckets [OF this] show ?thesis by simp
qed








subsection \<open>The dynamic method\<close>

lemma rotating_sample_distinct: "sample_distinct rotating"
proof -
  have "set (take k (rotate g [0..<n])) \<subseteq> {..<n}" for k g n
    using set_take_subset [of k "rotate g [0..<n]"] by auto
  then show ?thesis by (simp add: sample_distinct_def rotating_def)
qed

lemma rotating_draw_in_range: "draw_in_range rotating"
proof -
  have "lo + int g mod (hi - lo) < hi" if "lo < hi" for lo hi :: int and g :: nat
  proof -
    from that have "int g mod (hi - lo) < hi - lo" by (intro pos_mod_bound) simp
    then show ?thesis by linarith
  qed
  then show ?thesis by (simp add: draw_in_range_def rotating_def)
qed

lemma dynamic_bucket_shape:
  assumes "dynamic_bucket L n rk k b" and "draw_in_range L" and "sample_distinct L"
  shows "2 \<le> length b \<and> length b < n div 2 \<and> distinct b \<and> set b \<subseteq> {..<n}"
proof -
  from assms(1) obtain g where g: "RandomState L rk k = Inr g" and rng: "2 < int (n div 2)"
    and sb: "sampled_bucket L n (fst (draw L g 2 (int (n div 2)))) rk b"
    by (auto simp: dynamic_bucket_def split: sum.splits)
  let ?sz = "fst (draw L g 2 (int (n div 2)))"
  from assms(2) rng have sz: "2 \<le> ?sz" "?sz < int (n div 2)"
    by (simp_all add: draw_in_range_def)
  from sb have "?sz \<le> int n" and b: "b = fst (pick L (check_random_state L rk) n (nat ?sz))"
    by (simp_all add: sampled_bucket_def)
  then have le: "nat ?sz \<le> n" by linarith
  from assms(3) le b have "length b = nat ?sz" "distinct b" "set b \<subseteq> {..<n}"
    by (simp_all add: sample_distinct_def)
  moreover from sz have "2 \<le> nat ?sz" "nat ?sz < n div 2" by linarith+
  ultimately show ?thesis by simp
qed

text \<open>
  C7. In a dynamic call that succeeds, every one of the \<open>n_buckets\<close> buckets gets its size
  from \<^verbatim>\<open>randint(2, n_estimators div 2)\<close> on a generator built for that bucket alone, and its
  members from the sampler with that size: at least 2 and fewer than \<open>n_estimators div 2\<close>
  distinct column indices. With an integer seed every bucket is built from the same newly
  seeded generator, so all buckets are equal; with no seed the size of bucket \<open>k\<close> comes from
  the \<open>k\<close>-th newly built generator, not from the shared one. (That the draw is uniform is
  a property of numpy's generator, which the model leaves open.)
\<close>

theorem dynamic_buckets:
  assumes "bucket_assignment L mode scores nb ''dynamic'' boot r = Inr bs"
    and "draw_in_range L" and "sample_distinct L"
  shows "length bs = nb
     \<and> (\<forall>k<nb. \<exists>rk. same_source r rk \<and> dynamic_bucket L (n_cols scores) rk k (bs ! k))
     \<and> (\<forall>b \<in> set bs. 2 \<le> length b \<and> length b < n_cols scores div 2 \<and> distinct b
                      \<and> set b \<subseteq> {..<n_cols scores})
     \<and> (\<forall>s. r = RS_int s \<longrightarrow>
           bs = replicate nb (seeded_sample L s (n_cols scores)
                  (nat (fst (draw L (seeded L s) 2 (int (n_cols scores div 2)))))))
     \<and> (\<forall>g. r = RS_none g \<longrightarrow>
           (\<forall>k<nb. \<exists>g'. bs ! k = fst (pick L g' (n_cols scores)
                  (nat (fst (draw L (fresh L k) 2 (int (n_cols scores div 2))))))))"
proof -
  let ?n = "n_cols scores"
  note lb = bucket_assignment_Inr(1) [OF assms(1)]
  note d = dynamic_assignment [OF assms(1)]
  have shape: "\<forall>b \<in> set bs. 2 \<le> length b \<and> length b < ?n div 2 \<and> distinct b \<and> set b \<subseteq> {..<?n}"
  proof
    fix b assume "b \<in> set bs"
    then obtain k where k: "k < nb" "b = bs ! k" using lb by (auto simp: in_set_conv_nth)
    with d obtain rk where "dynamic_bucket L ?n rk k b" by blast
    from dynamic_bucket_shape [OF this assms(2,3)]
    show "2 \<le> length b \<and> length b < ?n div 2 \<and> distinct b \<and> set b \<subseteq> {..<?n}" .
  qed
  have seed: "bs = replicate nb (seeded_sample L s ?n (nat (fst (draw L (seeded L s) 2 (int (?n div 2))))))"
    if r: "r = RS_int s" for s
  proof (rule nth_equalityI)
    show "length bs = length (replicate nb (seeded_sample L s ?n
            (nat (fst (draw L (seeded L s) 2 (int (?n div 2)))))))"
      using lb by simp
  next
    fix k assume "k < length bs"
    with lb have k: "k < nb" by simp
    with d r obtain rk where rk: "same_source (RS_int s) rk" "dynamic_bucket L ?n rk k (bs ! k)"
      by blast
    from rk(1) have "rk = RS_int s" by (simp only: same_source_int)
    with rk(2) have "bs ! k = seeded_sample L s ?n (nat (fst (draw L (seeded L s) 2 (int (?n div 2)))))"
      by (simp add: dynamic_bucket_def sampled_bucket_def seeded_sample_def)
    with k show "bs ! k = replicate nb (seeded_sample L s ?n
            (nat (fst (draw L (seeded L s) 2 (int (?n div 2)))))) ! k"
      by simp
  qed
  have none: "\<exists>g'. bs ! k = fst (pick L g' ?n (nat (fst (draw L (fresh L k) 2 (int (?n div 2))))))"
    if r: "r = RS_none g" and k: "k < nb" for g k
  proof -
    from d r k obtain rk where rk: "same_source (RS_none g) rk" "dynamic_bucket L ?n rk k (bs ! k)"
      by blast
    from same_source_none [OF rk(1)] obtain g1 where "rk = RS_none g1" by blast
    with rk(2) show ?thesis
      by (auto simp: dynamic_bucket_def sampled_bucket_def)
  qed
  from lb d shape seed none show ?thesis by blast
qed

theorem dynamic_buckets_witness:
  "bucket_assignment rotating ''MOA'' eight_estimators 3 ''dynamic'' True (RS_int 1)
     = Inr [[1, 2, 3], [1, 2, 3], [1, 2, 3]]
   \<and> draw_in_range rotating \<and> sample_distinct rotating
   \<and> length [[1, 2, 3], [1, 2, 3], [1, 2, 3 :: nat]] = 3
   \<and> [[1, 2, 3], [1, 2, 3], [1, 2, 3]]
       = replicate 3 (seeded_sample rotating 1 (n_cols eight_estimators)
           (nat (fst (draw rotating (seeded rotating 1) 2 (int (n_cols eight_estimators div 2))))))"
proof -
  have ba: "bucket_assignment rotating ''MOA'' eight_estimators 3 ''dynamic'' True (RS_int 1)
              = Inr [[1, 2, 3], [1, 2, 3], [1, 2, 3]]"
    by code_simp
  note t = dynamic_buckets [OF ba rotating_draw_in_range rotating_sample_distinct]
  note s = t [THEN conjunct2, THEN conjunct2, THEN conjunct2, THEN conjunct1, THEN spec,
      THEN mp, OF refl]
  show ?thesis
    by (intro conjI ba rotating_draw_in_range rotating_sample_distinct t [THEN conjunct1] s)
qed

subsection \<open>Uneven division in static mode\<close>









subsection \<open>The dynamic method needs six estimators\<close>

lemma dynamic_loop_first_fails:
  "int (n div 2) \<le> 2 \<Longrightarrow>
     dynamic_loop L mode scores n (i # rest) r st
       = (case RandomState L r i of Inl e \<Rightarrow> Inl e | Inr g \<Rightarrow> Inl EmptyRange)"
  by (simp add: randint_def split: sum.splits)

lemma dynamic_small_valid:
  assumes "n_cols scores \<le> 5"
    and "mode = ''AOM'' \<or> mode = ''MOA''" and "check_array scores = Inr scores"
    and "2 \<le> nb" and "nb \<le> n_cols scores"
  shows "aom_moa_buckets L mode scores nb ''dynamic'' boot r
           = (case RandomState L r 0 of Inl e \<Rightarrow> Inl e | Inr g \<Rightarrow> Inl EmptyRange)"
    and "aom_moa_helper L mode scores nb ''dynamic'' boot r
           = (case RandomState L r 0 of Inl e \<Rightarrow> Inl e | Inr g \<Rightarrow> Inl EmptyRange)"
proof -
  from assms(1) have small: "int (n_cols scores div 2) \<le> 2" by simp
  from assms(4) have up: "[0..<nb] = 0 # [1..<nb]" by (simp add: upt_conv_Cons)
  show b: "aom_moa_buckets L mode scores nb ''dynamic'' boot r
           = (case RandomState L r 0 of Inl e \<Rightarrow> Inl e | Inr g \<Rightarrow> Inl EmptyRange)"
    unfolding aom_moa_buckets_valid [OF assms(2-5), of L "''dynamic''" boot r] up
    using dynamic_loop_first_fails [OF small] by simp
  show "aom_moa_helper L mode scores nb ''dynamic'' boot r
           = (case RandomState L r 0 of Inl e \<Rightarrow> Inl e | Inr g \<Rightarrow> Inl EmptyRange)"
    unfolding aom_moa_helper_def b by (simp split: sum.splits)
qed

lemma dynamic_small_fails:
  assumes "n_cols scores \<le> 5"
  shows "aom_moa_helper L mode scores nb ''dynamic'' boot r \<noteq> Inr out"
proof
  assume ok: "aom_moa_helper L mode scores nb ''dynamic'' boot r = Inr out"
  then obtain bs where ba: "bucket_assignment L mode scores nb ''dynamic'' boot r = Inr bs"
    by (auto simp: aom_moa_helper_eq split: sum.splits)
  note v = bucket_assignment_Inr(3-6) [OF ba]
  from ok dynamic_small_valid(2) [OF assms v, of L boot r] show False
    by (simp split: sum.splits)
qed

text \<open>
  C10. With at most five estimators a dynamic call never succeeds. If it passes validation,
  it fails in the first bucket iteration, before any bucket is reduced: unless building the
  generator already fails, \<^verbatim>\<open>randint(2, n_estimators div 2)\<close> raises for its empty range.
\<close>

theorem dynamic_needs_six_estimators:
  assumes "n_cols scores \<le> 5"
  shows "(\<forall>out. aom L scores nb ''dynamic'' boot r \<noteq> Inr out)
         \<and> (\<forall>out. moa L scores nb ''dynamic'' boot r \<noteq> Inr out)
         \<and> ((mode = ''AOM'' \<or> mode = ''MOA'') \<and> check_array scores = Inr scores
              \<and> 2 \<le> nb \<and> nb \<le> n_cols scores \<longrightarrow>
            aom_moa_helper L mode scores nb ''dynamic'' boot r
              = (case RandomState L r 0 of Inl e \<Rightarrow> Inl e | Inr g \<Rightarrow> Inl EmptyRange)
            \<and> aom_moa_buckets L mode scores nb ''dynamic'' boot r
              = (case RandomState L r 0 of Inl e \<Rightarrow> Inl e | Inr g \<Rightarrow> Inl EmptyRange))"
proof (intro conjI allI impI)
  fix out
  show "aom L scores nb ''dynamic'' boot r \<noteq> Inr out"
    unfolding aom_def by (rule dynamic_small_fails [OF assms])
  show "moa L scores nb ''dynamic'' boot r \<noteq> Inr out"
    unfolding moa_def by (rule dynamic_small_fails [OF assms])
next
  assume v: "(mode = ''AOM'' \<or> mode = ''MOA'') \<and> check_array scores = Inr scores
              \<and> 2 \<le> nb \<and> nb \<le> n_cols scores"
  then have v': "mode = ''AOM'' \<or> mode = ''MOA''" "check_array scores = Inr scores"
    "2 \<le> nb" "nb \<le> n_cols scores" by simp_all
  show "aom_moa_helper L mode scores nb ''dynamic'' boot r
              = (case RandomState L r 0 of Inl e \<Rightarrow> Inl e | Inr g \<Rightarrow> Inl EmptyRange)"
    by (rule dynamic_small_valid(2) [OF assms v'])
  show "aom_moa_buckets L mode scores nb ''dynamic'' boot r
              = (case RandomState L r 0 of Inl e \<Rightarrow> Inl e | Inr g \<Rightarrow> Inl EmptyRange)"
    by (rule dynamic_small_valid(1) [OF assms v'])
qed

theorem dynamic_needs_six_estimators_witness:
  "n_cols two_samples \<le> 5
   \<and> check_array two_samples = Inr two_samples \<and> 2 \<le> n_cols two_samples
   \<and> aom_moa_helper rotating ''AOM'' two_samples 2 ''dynamic'' False (RS_int 1)
       = (case RandomState rotating (RS_int 1) 0 of Inl e \<Rightarrow> Inl e | Inr g \<Rightarrow> Inl EmptyRange)
   \<and> aom rotating two_samples 2 ''dynamic'' False (RS_int 1) \<noteq> Inr [7 / 2, 7 / 2]"
proof -
  have c: "check_array two_samples = Inr two_samples"
    by (simp add: check_array_def two_samples_def)
  have n: "n_cols two_samples = 4"
    by (simp add: n_cols_def two_samples_def)
  have s: "n_cols two_samples \<le> 5" and v: "2 \<le> n_cols two_samples"
    by (simp_all add: n)
  have ok: "(''AOM'' = ''AOM'' \<or> ''AOM'' = ''MOA'') \<and> check_array two_samples = Inr two_samples
              \<and> (2::nat) \<le> 2 \<and> 2 \<le> n_cols two_samples"
    using c v by simp
  note t = dynamic_needs_six_estimators [OF s, of rotating 2 False "RS_int 1" "''AOM''"]
  note h = t [THEN conjunct2, THEN conjunct2, THEN mp, OF ok, THEN conjunct1]
  show ?thesis
    by (intro conjI s c v h t [THEN conjunct1, THEN spec])
qed

lemma dynamic_four_estimators:
  "aom rotating two_samples 2 ''dynamic'' False (RS_int 1) = Inl EmptyRange"
  by code_simp

lemma dynamic_six_estimators:
  "aom rotating [[1, 2, 3, 4, 5, 6]] 2 ''dynamic'' False (RS_int 1) = Inr [3]"
  by code_simp

subsection \<open>majority\_vote\<close>

lemma sum_list_map2_nth:
  fixes g :: "'a \<Rightarrow> 'b \<Rightarrow> real"
  shows "length xs = length ys \<Longrightarrow> sum_list (map2 g xs ys) = (\<Sum>j<length ys. g (xs ! j) (ys ! j))"
proof (induction xs ys rule: list_induct2)
  case Nil
  then show ?case by simp
next
  case (Cons x xs y ys)
  have "(\<Sum>j<Suc (length ys). g ((x # xs) ! j) ((y # ys) ! j))
          = g x y + (\<Sum>j<length ys. g (xs ! j) (ys ! j))"
    by (simp only: sum.lessThan_Suc_shift nth_Cons_0 nth_Cons_Suc)
  with Cons show ?case by simp
qed

lemma counts_votes:
  "length w = length row \<Longrightarrow>
     sum_list (map2 (\<lambda>x wx. if x = l then wx else 0) row w) = votes row w l"
  by (simp add: sum_list_map2_nth votes_def)

lemma weighted_mode_loop_result:
  assumes "sorted ls" and "length w = length a"
  shows "case weighted_mode_loop a w ls (mfi, oci) of (mf, oc) \<Rightarrow>
           oci \<le> oc \<and> (\<forall>l \<in> set ls. votes a w l \<le> oc)
           \<and> (if \<exists>l \<in> set ls. oci < votes a w l
               then mf \<in> set ls \<and> votes a w mf = oc
                    \<and> (\<forall>l \<in> set ls. votes a w l = oc \<longrightarrow> mf \<le> l)
               else mf = mfi \<and> oc = oci)"
  using assms(1)
proof (induction ls arbitrary: mfi oci)
  case Nil
  then show ?case by simp
next
  case (Cons s rest)
  let ?c = "votes a w s"
  let ?mfn = "if ?c > oci then s else mfi"
  let ?ocn = "max ?c oci"
  obtain mf oc where res: "weighted_mode_loop a w rest (?mfn, ?ocn) = (mf, oc)"
    by (cases "weighted_mode_loop a w rest (?mfn, ?ocn)")
  then have step: "weighted_mode_loop a w (s # rest) (mfi, oci) = (mf, oc)"
    by (simp add: counts_votes [OF assms(2)] Let_def)
  from Cons.prems have srt: "sorted rest" and le: "\<forall>l \<in> set rest. s \<le> l" by simp_all
  from Cons.IH [OF srt, where mfi = ?mfn and oci = ?ocn] res
  have ih1: "?ocn \<le> oc" and ih2: "\<forall>l \<in> set rest. votes a w l \<le> oc"
    and ih3: "if \<exists>l \<in> set rest. ?ocn < votes a w l
               then mf \<in> set rest \<and> votes a w mf = oc
                    \<and> (\<forall>l \<in> set rest. votes a w l = oc \<longrightarrow> mf \<le> l)
               else mf = ?mfn \<and> oc = ?ocn"
    by simp_all
  have g1: "oci \<le> oc" using ih1 by simp
  have g2: "\<forall>l \<in> set (s # rest). votes a w l \<le> oc" using ih1 ih2 by simp
  have g3: "if \<exists>l \<in> set (s # rest). oci < votes a w l
               then mf \<in> set (s # rest) \<and> votes a w mf = oc
                    \<and> (\<forall>l \<in> set (s # rest). votes a w l = oc \<longrightarrow> mf \<le> l)
               else mf = mfi \<and> oc = oci"
  proof (cases "\<exists>l \<in> set rest. ?ocn < votes a w l")
    case True
    with ih3 have m: "mf \<in> set rest" "votes a w mf = oc"
      "\<forall>l \<in> set rest. votes a w l = oc \<longrightarrow> mf \<le> l" by simp_all
    from True obtain l' where l': "l' \<in> set rest" "?ocn < votes a w l'" by blast
    with ih2 have "?ocn < oc" by force
    then have "?c < oc" "oci < oc" by simp_all
    with m l' show ?thesis by auto
  next
    case False
    with ih3 have m: "mf = ?mfn" "oc = ?ocn" by simp_all
    show ?thesis
    proof (cases "?c > oci")
      case True
      with m le show ?thesis by auto
    next
      case c: False
      with m False show ?thesis by (auto simp: max_def)
    qed
  qed
  from g1 g2 g3 show ?case unfolding step by simp
qed

lemma weighted_mode_winner:
  assumes "weighted_mode row [w] = Inr (mf, oc)" and "\<exists>l \<in> set row. 0 < votes row w l"
  shows "weighted_winner row w mf"
proof -
  from assms(1) have len: "length w = length row"
    and run: "weighted_mode_loop row w (sort (remdups row)) (0, 0) = (mf, oc)"
    by (auto simp: weighted_mode_def split: if_splits)
  have srt: "sorted (sort (remdups row))" by simp
  have st: "set (sort (remdups row)) = set row" by simp
  from weighted_mode_loop_result [OF srt len, of 0 0] run assms(2)
  show ?thesis
    unfolding st by (auto simp: weighted_winner_def)
qed


lemma vote_loop_result:
  assumes "vote_loop scores weights [k..<n] vr = Inr out" and "length vr = n"
  shows "length out = n \<and> (\<forall>i<k. out ! i = vr ! i)
         \<and> (\<forall>i. k \<le> i \<and> i < n \<longrightarrow> (\<exists>oc. weighted_mode (scores ! i) weights = Inr (out ! i, oc)))"
  using assms
proof (induction "n - k" arbitrary: k vr)
  case 0
  then have "n \<le> k" and "vr = out" by simp_all
  with 0 show ?case by auto
next
  case (Suc d)
  then have lt: "k < n" by simp
  then have up: "[k..<n] = k # [Suc k..<n]" by (simp add: upt_conv_Cons)
  from Suc.prems(1) obtain mf oc where
    wm: "weighted_mode (scores ! k) weights = Inr (mf, oc)"
    and lp: "vote_loop scores weights [Suc k..<n] (vr[k := mf]) = Inr out"
    by (auto simp: up split: sum.splits)
  from Suc.hyps(2) have d: "d = n - Suc k" by simp
  from Suc.prems(2) have len: "length (vr[k := mf]) = n" by simp
  from Suc.hyps(1) [OF d lp len]
  have ih: "length out = n" "\<forall>i<Suc k. out ! i = vr[k := mf] ! i"
    "\<forall>i. Suc k \<le> i \<and> i < n \<longrightarrow> (\<exists>oc. weighted_mode (scores ! i) weights = Inr (out ! i, oc))"
    by simp_all
  from ih(2) lt Suc.prems(2) have outk: "out ! k = mf" by simp
  have before: "\<forall>i<k. out ! i = vr ! i" using ih(2) by simp
  have "\<exists>oc. weighted_mode (scores ! i) weights = Inr (out ! i, oc)" if "k \<le> i \<and> i < n" for i
  proof (cases "i = k")
    case True
    with wm outk show ?thesis by simp
  next
    case False
    with that ih(3) show ?thesis by simp
  qed
  with ih(1) before show ?case by simp
qed

lemma weighted_mode_Inr:
  "weighted_mode row weights = Inr p \<Longrightarrow> \<exists>w. weights = [w] \<and> length w = length row"
  by (auto simp: weighted_mode_def split: list.splits if_splits)

lemma majority_vote_Inr:
  assumes "majority_vote scores n_classes weights = Inr out"
  shows "\<exists>w. (weights = None \<and> w = replicate (n_cols scores) 1 \<or> weights = Some (Array2 [w]))
           \<and> length w = n_cols scores \<and> length out = length scores
           \<and> (\<forall>i<length scores. \<exists>oc. weighted_mode (scores ! i) [w] = Inr (out ! i, oc))"
proof -
  from assms obtain s where c: "check_array scores = Inr s"
    by (auto simp: majority_vote_def split: sum.splits)
  note v = check_array_Inr [OF c]
  from v have s: "s = scores" and ne: "scores \<noteq> []" by simp_all
  from assms c s obtain ws where
    ws: "(case weights of
            Some (Array1 xs) \<Rightarrow> Inl IndexError
          | Some (Array2 rows) \<Rightarrow>
              if n_cols scores = n_cols rows then Inr rows else Inl AssertionError
          | None \<Rightarrow> Inr [replicate (n_cols scores) 1]) = Inr ws"
    and lp: "vote_loop scores ws [0..<length scores] (replicate (length scores) 0) = Inr out"
    by (auto simp: majority_vote_def Let_def split: sum.splits)
  from vote_loop_result [OF lp] have
    len: "length out = length scores"
    and each: "\<forall>i<length scores. \<exists>oc. weighted_mode (scores ! i) ws = Inr (out ! i, oc)"
    by simp_all
  from ne each obtain oc where "weighted_mode (scores ! 0) ws = Inr (out ! 0, oc)" by auto
  from weighted_mode_Inr [OF this] obtain w where w: "ws = [w]" "length w = length (scores ! 0)"
    by blast
  from ne v have "length (scores ! 0) = n_cols scores" by simp
  with w have lw: "length w = n_cols scores" by simp
  from ws w have "weights = None \<and> w = replicate (n_cols scores) 1 \<or> weights = Some (Array2 [w])"
    by (auto split: option.splits ndarray.splits if_splits)
  with lw len each w(1) show ?thesis by blast
qed

lemma votes_uniform_positive:
  assumes "l \<in> set row"
  shows "0 < votes row (replicate (length row) 1) l"
proof -
  from assms obtain j where j: "j < length row" "row ! j = l" by (auto simp: in_set_conv_nth)
  let ?f = "\<lambda>j. if row ! j = l then replicate (length row) (1::real) ! j else 0"
  have "?f j \<le> sum ?f {..<length row}"
    using j by (intro member_le_sum) auto
  with j show ?thesis by (simp add: votes_def)
qed

text \<open>
  C6 as stated fails: when no label has a positive sum of weights, no count ever exceeds the
  initial 0 and the result is the initial value 0, which need not be a label at all.
\<close>

theorem majority_vote_zero_weights:
  "majority_vote [[1, 1]] 2 (Some (Array2 [[0, 0]])) = Inr [0]
   \<and> \<not> weighted_winner [1, 1] [0, 0] 0"
proof -
  have "majority_vote [[1, 1]] 2 (Some (Array2 [[0, 0]])) = Inr [0]"
    by code_simp
  moreover have "\<not> weighted_winner [1, 1] [0, 0] 0"
    by (simp add: weighted_winner_def)
  ultimately show ?thesis by simp
qed

text \<open>
  C6, amended. When \<open>majority_vote\<close> succeeds, it returns one label per sample. With uniform
  weights (the default), and with a weight array of shape (1, n\_estimators) for every row
  in which some label has a positive sum of weights, the label returned has the largest sum
  of weights of the estimators that voted for it, and is the smallest such label.
\<close>

theorem majority_vote_weighted_winner:
  assumes "majority_vote scores n_classes weights = Inr out"
  shows "length out = length scores
     \<and> (weights = None \<longrightarrow>
          (\<forall>i<length scores.
             weighted_winner (scores ! i) (replicate (n_cols scores) 1) (out ! i)))
     \<and> (\<forall>w. weights = Some (Array2 [w]) \<longrightarrow>
          (\<forall>i<length scores. (\<exists>l \<in> set (scores ! i). 0 < votes (scores ! i) w l) \<longrightarrow>
             weighted_winner (scores ! i) w (out ! i)))"
proof -
  from majority_vote_Inr [OF assms] obtain w where
    w: "weights = None \<and> w = replicate (n_cols scores) 1 \<or> weights = Some (Array2 [w])"
    and lw: "length w = n_cols scores" and len: "length out = length scores"
    and each: "\<forall>i<length scores. \<exists>oc. weighted_mode (scores ! i) [w] = Inr (out ! i, oc)"
    by blast
  from assms obtain s where c: "check_array scores = Inr s"
    by (auto simp: majority_vote_def split: sum.splits)
  note v = check_array_Inr [OF c]
  have win: "weighted_winner (scores ! i) w (out ! i)"
    if "i < length scores" and "\<exists>l \<in> set (scores ! i). 0 < votes (scores ! i) w l" for i
    using each that weighted_mode_winner by blast
  have uni: "weighted_winner (scores ! i) (replicate (n_cols scores) 1) (out ! i)"
    if n: "weights = None" and i: "i < length scores" for i
  proof -
    from n w have w1: "w = replicate (n_cols scores) 1" by simp
    from i v have li: "length (scores ! i) = n_cols scores" and "0 < n_cols scores" by simp_all
    then have m: "scores ! i ! 0 \<in> set (scores ! i)" by simp
    from votes_uniform_positive [OF m] li w1
    have "0 < votes (scores ! i) w (scores ! i ! 0)" by simp
    with m have "\<exists>l \<in> set (scores ! i). 0 < votes (scores ! i) w l" by blast
    from win [OF i this] w1 show ?thesis by simp
  qed
  from len uni win w show ?thesis by auto
qed

theorem majority_vote_weighted_winner_witness:
  "majority_vote three_voters 2 None = Inr [0, 1]
   \<and> weighted_winner (three_voters ! 0) (replicate (n_cols three_voters) 1) ([0, 1] ! 0)
   \<and> weighted_winner (three_voters ! 1) (replicate (n_cols three_voters) 1) ([0, 1] ! 1)
   \<and> majority_vote five_voters 2 (Some (Array2 [[1, 1, 1, 1, 3]])) = Inr [3]
   \<and> weighted_winner (five_voters ! 0) [1, 1, 1, 1, 3] ([3] ! 0)"
proof -
  have a: "majority_vote three_voters 2 None = Inr [0, 1]"
    by code_simp
  have l: "0 < length three_voters" "1 < length three_voters"
    by (simp_all add: three_voters_def)
  note t = majority_vote_weighted_winner [OF a, THEN conjunct2, THEN conjunct1, THEN mp, OF refl,
      THEN spec, THEN mp]
  have b: "majority_vote five_voters 2 (Some (Array2 [[1, 1, 1, 1, 3]])) = Inr [3]"
    by code_simp
  have l5: "0 < length five_voters"
    by (simp add: five_voters_def)
  have "3 \<in> set (five_voters ! 0)"
    by (simp add: five_voters_def)
  moreover have "0 < votes (five_voters ! 0) [1, 1, 1, 1, 3] 3"
    by code_simp
  ultimately have p: "\<exists>l \<in> set (five_voters ! 0). 0 < votes (five_voters ! 0) [1, 1, 1, 1, 3] l"
    by blast
  note u = majority_vote_weighted_winner [OF b, THEN conjunct2, THEN conjunct2, THEN spec,
      THEN mp, OF refl, THEN spec, THEN mp, OF l5, THEN mp, OF p]
  show ?thesis
    by (intro conjI a b t [OF l(1)] t [OF l(2)] u)
qed

subsection \<open>Calls that succeed\<close>

text \<open>
  If the library keeps its contracts, a call that passes validation succeeds in static mode
  whenever the division is even, and in dynamic mode whenever there are at least six
  estimators and the random source is a seed or unset.
\<close>

lemma static_loop_succeeds:
  assumes "filled mode scores nb k0 st" and "scores \<noteq> []" and "0 < m"
    and "length sh = nb * m" and "set sh \<subseteq> {..<n_cols scores}"
  shows "\<exists>st'. static_loop mode scores sh m (map (\<lambda>k. k * m) [k0..<nb]) (k0 * m) st = Inr st'"
  using assms(1)
proof (induction "nb - k0" arbitrary: k0 st)
  case 0
  then show ?case by simp
next
  case (Suc d)
  then have lt: "k0 < nb" by simp
  then have up: "[k0..<nb] = k0 # [Suc k0..<nb]" by (simp add: upt_conv_Cons)
  let ?ind = "slice sh (k0 * m) (k0 * m + m)"
  from length_slice [OF lt assms(4)] assms(3) have ne: "?ind \<noteq> []" by auto
  have "set ?ind \<subseteq> set sh"
    unfolding slice_def using set_drop_subset set_take_subset by fast
  with assms(5) have sub: "set ?ind \<subseteq> {..<n_cols scores}" by blast
  from fill_bucket_succeeds [OF ne sub lt Suc.prems assms(2)] obtain st1 where
    f: "fill_bucket mode scores ?ind k0 st = Inr st1" by blast
  from fill_bucket_step [OF f Suc.prems assms(2)]
  have i1: "filled mode scores nb (Suc k0) st1" by simp
  from Suc.hyps(2) have d: "d = nb - Suc k0" by simp
  from Suc.hyps(1) [OF d i1] f assms(3) show ?case
    by (simp add: up Let_def add.commute)
qed

lemma bootstrap_loop_succeeds:
  assumes "filled mode scores nb k0 st" and "scores \<noteq> []" and "sample_distinct L"
    and "0 < m" and "m \<le> n_cols scores"
  shows "\<exists>st'. bootstrap_loop L mode scores (n_cols scores) m [k0..<nb] r st = Inr st'"
  using assms(1)
proof (induction "nb - k0" arbitrary: k0 st r)
  case 0
  then show ?case by simp
next
  case (Suc d)
  then have lt: "k0 < nb" by simp
  then have up: "[k0..<nb] = k0 # [Suc k0..<nb]" by (simp add: upt_conv_Cons)
  let ?n = "n_cols scores"
  obtain ind g' where pk: "pick L (check_random_state L r) ?n m = (ind, g')"
    by (cases "pick L (check_random_state L r) ?n m")
  with assms(5) have sm: "sample_without_replacement L ?n (int m) r = Inr (ind, after_draw r g')"
    by (simp add: sample_without_replacement_def)
  from assms(3,5) pk have "length ind = m" and sub: "set ind \<subseteq> {..<?n}"
    unfolding sample_distinct_def by (metis fst_conv)+
  with assms(4) have ne: "ind \<noteq> []" by auto
  from fill_bucket_succeeds [OF ne sub lt Suc.prems assms(2)] obtain st1 where
    f: "fill_bucket mode scores ind k0 st = Inr st1" by blast
  from fill_bucket_step [OF f Suc.prems assms(2)]
  have i1: "filled mode scores nb (Suc k0) st1" by simp
  from Suc.hyps(2) have d: "d = nb - Suc k0" by simp
  from Suc.hyps(1) [OF d i1, of "after_draw r g'"] sm f show ?case
    by (simp add: up)
qed

lemma dynamic_loop_succeeds:
  assumes "filled mode scores nb k0 st" and "scores \<noteq> []" and "sample_distinct L"
    and "draw_in_range L" and "6 \<le> n_cols scores" and "\<forall>g. r \<noteq> RS_instance g"
  shows "\<exists>st'. dynamic_loop L mode scores (n_cols scores) [k0..<nb] r st = Inr st'"
  using assms(1,6)
proof (induction "nb - k0" arbitrary: k0 st r)
  case 0
  then show ?case by simp
next
  case (Suc d)
  then have lt: "k0 < nb" by simp
  then have up: "[k0..<nb] = k0 # [Suc k0..<nb]" by (simp add: upt_conv_Cons)
  let ?n = "n_cols scores"
  from Suc.prems(2) obtain g where rs: "RandomState L r k0 = Inr g"
    by (cases r) auto
  let ?sz = "fst (draw L g 2 (int (?n div 2)))"
  from assms(5) have rng: "2 < int (?n div 2)" by linarith
  with assms(4) have sz: "2 \<le> ?sz" "?sz < int (?n div 2)"
    by (simp_all add: draw_in_range_def)
  from rng have ri: "randint L g 2 (int (?n div 2)) = Inr ?sz"
    by (simp add: randint_def)
  from sz have szn: "0 \<le> ?sz" "?sz \<le> int ?n" "nat ?sz \<le> ?n" by linarith+
  obtain ind g' where pk: "pick L (check_random_state L r) ?n (nat ?sz) = (ind, g')"
    by (cases "pick L (check_random_state L r) ?n (nat ?sz)")
  with szn have sm: "sample_without_replacement L ?n ?sz r = Inr (ind, after_draw r g')"
    by (simp add: sample_without_replacement_def)
  from assms(3) szn(3) pk have "length ind = nat ?sz" and sub: "set ind \<subseteq> {..<?n}"
    unfolding sample_distinct_def by (metis fst_conv)+
  with sz have ne: "ind \<noteq> []" by auto
  from fill_bucket_succeeds [OF ne sub lt Suc.prems(1) assms(2)] obtain st1 where
    f: "fill_bucket mode scores ind k0 st = Inr st1" by blast
  from fill_bucket_step [OF f Suc.prems(1) assms(2)]
  have i1: "filled mode scores nb (Suc k0) st1" by simp
  from Suc.prems(2) have ni: "\<forall>g. after_draw r g' \<noteq> RS_instance g" by (cases r) auto
  from Suc.hyps(2) have d: "d = nb - Suc k0" by simp
  from Suc.hyps(1) [OF d i1 ni] rs ri sm f show ?case
    by (simp add: up)
qed

lemma aom_moa_succeeds:
  assumes "mode = ''AOM'' \<or> mode = ''MOA''" and "check_array scores = Inr scores"
    and "2 \<le> nb" and "nb \<le> n_cols scores"
    and "shuffle_permutes L" and "sample_distinct L" and "draw_in_range L"
    and "meth = ''static'' \<and> n_cols scores mod nb = 0
         \<or> meth = ''dynamic'' \<and> 6 \<le> n_cols scores \<and> (\<forall>g. r \<noteq> RS_instance g)"
  shows "\<exists>out. aom_moa_helper L mode scores nb meth boot r = Inr out"
proof -
  let ?n = "n_cols scores"
  let ?m = "n_cols scores div nb"
  let ?z = "(zeros (length scores) nb, [])"
  note eq = aom_moa_buckets_valid [OF assms(1-4), of L "meth" boot r]
  from check_array_Inr [OF assms(2)] have ne: "scores \<noteq> []" by simp
  from assms(3,4) have m: "0 < ?m" by (simp add: div_greater_zero_iff)
  have mn: "?m \<le> ?n" by simp
  have z: "filled mode scores nb 0 ?z" by (rule filled_zeros)
  consider (static) "meth = ''static''" "?n mod nb = 0" "\<not> boot"
    | (boots) "meth = ''static''" "?n mod nb = 0" "boot"
    | (dynamic) "meth = ''dynamic''" "6 \<le> ?n" "\<forall>g. r \<noteq> RS_instance g"
    using assms(8) by (cases boot) auto
  then have "\<exists>st. aom_moa_buckets L mode scores nb meth boot r = Inr st"
  proof cases
    case static
    then have n: "?n = nb * ?m" by auto
    have pr: "py_range ?n ?m = map (\<lambda>k. k * ?m) [0..<nb]"
      using py_range_exact [OF m, of nb] n by (simp add: mult.commute)
    let ?sh = "fst (shuffle L [0..<?n] r)"
    have "?sh = fst (permute L (check_random_state L r) [0..<?n])"
      by (simp add: shuffle_def split: prod.splits)
    with assms(5) have perm: "mset ?sh = mset [0..<?n]"
      by (simp add: shuffle_permutes_def)
    then have "length ?sh = ?n" by (metis size_mset length_upt diff_zero)
    with n have len: "length ?sh = nb * ?m" by simp
    from perm have "set ?sh = {..<?n}" by (metis atLeast_upt mset_eq_setD)
    then have sub: "set ?sh \<subseteq> {..<?n}" by simp
    from static_loop_succeeds [OF z ne m len sub] eq static pr show ?thesis
      by simp
  next
    case boots
    from bootstrap_loop_succeeds [OF z ne assms(6) m mn, of r] eq boots show ?thesis
      by simp
  next
    case dynamic
    from dynamic_loop_succeeds [OF z ne assms(6,7) dynamic(2,3)] eq dynamic(1) show ?thesis
      by simp
  qed
  then obtain sb bs where "aom_moa_buckets L mode scores nb meth boot r = Inr (sb, bs)"
    by auto
  then have "bucket_assignment L mode scores nb meth boot r = Inr bs"
    by (simp add: bucket_assignment_def)
  then show ?thesis by (simp add: aom_moa_helper_eq)
qed

end
